theory Spec2Isabelle
  imports Complex_Main "HOL-Library.Word"
begin

section \<open>Conventions\<close>

text \<open>
  The repository has two routing programs: \<^verbatim>\<open>carbon.c\<close> (CO2 mode, dense graph, entry point
  \<^verbatim>\<open>shortp\<close>) and \<^verbatim>\<open>adb[1].h\<close> (distance mode, k-nearest-neighbour graph, entry point
  \<^verbatim>\<open>ecopath\<close>).  C \<^verbatim>\<open>double\<close> values are modelled as reals: the development says nothing
  about rounding.  Where the result of a function hangs on the rounding (the great-circle
  distance of \<^verbatim>\<open>adb[1].h\<close>, the point-to-segment distance of the polyline simplification), the
  value that the machine computes is a parameter of the model.  C arrays are modelled as lists (when they are allocated with a known length)
  or as functions from the index; a loop that the code cannot be shown to leave on every input
  takes a fuel argument and returns \<open>None\<close> when the fuel runs out.
\<close>

definition INF_val :: real where
  "INF_val = 10 ^ 18"

section \<open>carbon.c: data structures\<close>

record City =
  name :: string
  lon :: real
  lat :: real

record Edge =
  v :: int
  distance_km :: real
  traffic_factor :: real
  co2_cost :: real

text \<open>\<^verbatim>\<open>edges\<close> is the flattened adjacency matrix: slot \<open>i * n + j\<close> is the edge from i to j.\<close>

record Graph =
  n :: nat
  cities :: "City list"
  edges :: "Edge list"

definition DEFAULT_CO2_GKM :: real where
  "DEFAULT_CO2_GKM = 120"

definition CAR_FREEFLOW_KMPH :: real where
  "CAR_FREEFLOW_KMPH = 50"

definition BIKE_KMPH :: real where
  "BIKE_KMPH = 15"

definition WALK_KMPH :: real where
  "WALK_KMPH = 5"

subsection \<open>Great-circle distance\<close>

definition deg2rad :: "real \<Rightarrow> real" where
  "deg2rad d = d * pi / 180"

text \<open>The C library's \<^verbatim>\<open>atan2(y, x)\<close>, on the reals.\<close>

definition atan2 :: "real \<Rightarrow> real \<Rightarrow> real" where
  "atan2 y x =
     (if 0 < x then arctan (y / x)
      else if x < 0 \<and> 0 \<le> y then arctan (y / x) + pi
      else if x < 0 then arctan (y / x) - pi
      else if 0 < y then pi / 2
      else if y < 0 then - pi / 2
      else 0)"

definition haversine_km :: "real \<Rightarrow> real \<Rightarrow> real \<Rightarrow> real \<Rightarrow> real" where
  "haversine_km lat1 lon1 lat2 lon2 =
     (let R = 6371;
          dlat = deg2rad (lat2 - lat1);
          dlon = deg2rad (lon2 - lon1);
          a = sin (dlat / 2) * sin (dlat / 2) +
              cos (deg2rad lat1) * cos (deg2rad lat2) * sin (dlon / 2) * sin (dlon / 2);
          c = 2 * atan2 (sqrt a) (sqrt (1 - a))
      in R * c)"

subsection \<open>Graph builder\<close>

text \<open>
  \<^verbatim>\<open>build_complete_graph\<close> fills the \<open>n * n\<close> slots in row-major order; slot \<open>p\<close> belongs to the
  pair \<open>(p div n, p mod n)\<close>.
\<close>

definition complete_cell :: "City list \<Rightarrow> nat \<Rightarrow> nat \<Rightarrow> Edge" where
  "complete_cell cs i j =
     (if i \<noteq> j
      then \<lparr>v = int j,
            distance_km = haversine_km (lat (cs ! i)) (lon (cs ! i)) (lat (cs ! j)) (lon (cs ! j)),
            traffic_factor = 1, co2_cost = 0\<rparr>
      else \<lparr>v = - 1, distance_km = 0, traffic_factor = 1, co2_cost = 0\<rparr>)"

definition build_complete_graph :: "City list \<Rightarrow> nat \<Rightarrow> Edge list" where
  "build_complete_graph cs k = map (\<lambda>p. complete_cell cs (p div k) (p mod k)) [0..<k * k]"

text \<open>
  The shape of the dense graph that the CO2 mode works on: \<open>n * n\<close> slots, the diagonal marked
  invalid by \<open>v = -1\<close>, every other slot \<open>(i, j)\<close> carrying \<open>v = j\<close>.
\<close>

definition dense_graph :: "Graph \<Rightarrow> bool" where
  "dense_graph g =
     (length (edges g) = n g * n g \<and>
      list_all (\<lambda>p. v (edges g ! p) = (if p div n g = p mod n g then - 1 else int (p mod n g)))
        [0..<n g * n g])"

section \<open>carbon.c: traffic cache\<close>

text \<open>
  What the reader finds in \<^verbatim>\<open>traffic_cache.txt\<close>: \<open>stamp\<close> is the value that
  \<^verbatim>\<open>fscanf(f, "%lld", &ts)\<close> stores (\<open>None\<close> when no integer parses), \<open>rows\<close> are the triples that
  the repeated \<^verbatim>\<open>fscanf(f, "%d %d %lf\n", ...)\<close> reads before it first fails.  A file that cannot
  be opened is \<open>None\<close> of type \<open>cache_file option\<close>.
\<close>

record cache_file =
  stamp :: "64 word option"
  rows :: "(int \<times> int \<times> real) list"

text \<open>
  \<^verbatim>\<open>is_cache_fresh\<close>: \<open>now\<close> is the value of \<^verbatim>\<open>time(NULL)\<close>.  The subtraction is the machine's
  64-bit one (it wraps), the comparisons are signed.
\<close>

definition is_cache_fresh :: "cache_file option \<Rightarrow> 32 word \<Rightarrow> 64 word \<Rightarrow> bool" where
  "is_cache_fresh f ttl_minutes now =
     (case f of
        None \<Rightarrow> False
      | Some cf \<Rightarrow>
          (case stamp cf of
             None \<Rightarrow> False
           | Some ts \<Rightarrow>
               (let age = now - ts in
                if sint age < 0 then False
                else if sint age \<le> sint ((scast ttl_minutes :: 64 word) * 60) then True
                else False)))"

text \<open>
  \<^verbatim>\<open>save_traffic_cache\<close>: when the file opens for writing (\<open>writable\<close>) it is replaced by the
  time stamp and one row for every pair \<open>i < j\<close>; the function returns 1.  Otherwise the file
  stays as it was and the function returns 0.  \<^verbatim>\<open>%.6f\<close> prints the factor rounded to six
  decimals, to the nearest value and to the even digit when the factor lies exactly halfway.
\<close>

definition round6 :: "real \<Rightarrow> real" where
  "round6 x =
     (let y = x * 10 ^ 6;
          f = \<lfloor>y\<rfloor>;
          r = (if y - real_of_int f < 1 / 2 then f
               else if 1 / 2 < y - real_of_int f then f + 1
               else if even f then f else f + 1)
      in real_of_int r / 10 ^ 6)"

definition cache_rows :: "Graph \<Rightarrow> (int \<times> int \<times> real) list" where
  "cache_rows g =
     concat (map (\<lambda>i. map (\<lambda>j. (int i, int j, round6 (traffic_factor (edges g ! (i * n g + j)))))
                         [i + 1..<n g])
                 [0..<n g])"

definition save_traffic_cache ::
    "bool \<Rightarrow> cache_file option \<Rightarrow> Graph \<Rightarrow> 64 word \<Rightarrow> cache_file option \<times> int" where
  "save_traffic_cache writable old g now =
     (if \<not> writable then (old, 0)
      else (Some \<lparr>stamp = Some now, rows = cache_rows g\<rparr>, 1))"

text \<open>
  \<^verbatim>\<open>load_traffic_cache\<close>.  A store into \<^verbatim>\<open>g->edges\<close> is checked against the length of the
  array: \<open>None\<close> is a write outside the matrix.
\<close>

definition store_tf :: "Edge list \<Rightarrow> nat \<Rightarrow> real \<Rightarrow> Edge list option" where
  "store_tf es i x = (if i < length es then Some (es[i := (es ! i)\<lparr>traffic_factor := x\<rparr>]) else None)"

fun reset_tf :: "nat list \<Rightarrow> Edge list \<Rightarrow> Edge list option" where
  "reset_tf [] es = Some es"
| "reset_tf (i # is) es = (case store_tf es i 1 of None \<Rightarrow> None | Some es' \<Rightarrow> reset_tf is es')"

definition apply_row :: "nat \<Rightarrow> int \<times> int \<times> real \<Rightarrow> Edge list \<Rightarrow> Edge list option" where
  "apply_row k r es =
     (case r of (u, w, fac) \<Rightarrow>
        if u \<ge> 0 \<and> u < int k \<and> w \<ge> 0 \<and> w < int k
        then (case store_tf es (nat (u * int k + w)) fac of
                None \<Rightarrow> None
              | Some es' \<Rightarrow> store_tf es' (nat (w * int k + u)) fac)
        else Some es)"

fun apply_rows :: "nat \<Rightarrow> (int \<times> int \<times> real) list \<Rightarrow> Edge list \<Rightarrow> Edge list option" where
  "apply_rows k [] es = Some es"
| "apply_rows k (r # rs) es = (case apply_row k r es of None \<Rightarrow> None | Some es' \<Rightarrow> apply_rows k rs es')"

definition load_traffic_cache :: "cache_file option \<Rightarrow> Graph \<Rightarrow> (Graph \<times> int) option" where
  "load_traffic_cache f g =
     (case f of
        None \<Rightarrow> Some (g, 0)
      | Some cf \<Rightarrow>
          (case stamp cf of
             None \<Rightarrow> Some (g, 0)
           | Some ts \<Rightarrow>
               (case reset_tf [0..<n g * n g] (edges g) of
                  None \<Rightarrow> None
                | Some es0 \<Rightarrow>
                    (case apply_rows (n g) (rows cf) es0 of
                       None \<Rightarrow> None
                     | Some es1 \<Rightarrow> Some (g\<lparr>edges := es1\<rparr>, 1)))))"

text \<open>
  The specification's reading of the loaded factor of slot \<open>(a, b)\<close>: 1.0 after the reset, then
  the factor of every row whose indices are in range and name the pair in either direction, the
  last such row winning.
\<close>

definition row_hits :: "nat \<Rightarrow> nat \<Rightarrow> nat \<Rightarrow> int \<times> int \<times> real \<Rightarrow> bool" where
  "row_hits k a b r =
     (case r of (u, w, fac) \<Rightarrow>
        0 \<le> u \<and> u < int k \<and> 0 \<le> w \<and> w < int k \<and>
        ((u = int a \<and> w = int b) \<or> (u = int b \<and> w = int a)))"

definition loaded_factor :: "nat \<Rightarrow> (int \<times> int \<times> real) list \<Rightarrow> nat \<Rightarrow> nat \<Rightarrow> real" where
  "loaded_factor k rs a b =
     fold (\<lambda>r x. if row_hits k a b r then snd (snd r) else x) rs 1"


section \<open>carbon.c: CO2 weights, vehicle profile, route times\<close>

text \<open>
  \<^verbatim>\<open>apply_co2_weights\<close> visits the slots \<open>i * n + j\<close> in row-major order, that is the indices
  \<open>0, \<dots>, n * n - 1\<close>; an access beyond the array is \<open>None\<close>.
\<close>

definition apply_co2_cell :: "real \<Rightarrow> Edge \<Rightarrow> Edge" where
  "apply_co2_cell car_co2_g_per_km e =
     (if v e \<ge> 0
      then e\<lparr>co2_cost := distance_km e * traffic_factor e * car_co2_g_per_km\<rparr>
      else e\<lparr>co2_cost := 0\<rparr>)"

fun co2_loop :: "real \<Rightarrow> nat list \<Rightarrow> Edge list \<Rightarrow> Edge list option" where
  "co2_loop c [] es = Some es"
| "co2_loop c (p # ps) es =
     (if p < length es then co2_loop c ps (es[p := apply_co2_cell c (es ! p)]) else None)"

definition apply_co2_weights :: "Graph \<Rightarrow> real \<Rightarrow> Graph option" where
  "apply_co2_weights g car_co2_g_per_km =
     (case co2_loop car_co2_g_per_km [0..<n g * n g] (edges g) of
        None \<Rightarrow> None
      | Some es \<Rightarrow> Some (g\<lparr>edges := es\<rparr>))"

text \<open>
  The vehicle profile of \<^verbatim>\<open>shortp\<close>.  \<open>input\<close> is the line the user typed, without its newline;
  \<open>cars\<close> is \<open>None\<close> when \<^verbatim>\<open>cars.txt\<close> does not open, and otherwise the pairs \<open>(model, val)\<close> of
  the lines on which \<^verbatim>\<open>sscanf(line, "%127[^,],%lf", model, &val)\<close> returns 2, in file order.
  Characters are ASCII.
\<close>

definition tolower_c :: "char \<Rightarrow> char" where
  "tolower_c c = (let k = (of_char c :: nat) in if 65 \<le> k \<and> k \<le> 90 then char_of (k + 32) else c)"

definition isspace_c :: "char \<Rightarrow> bool" where
  "isspace_c c = (let k = (of_char c :: nat) in k = 32 \<or> (9 \<le> k \<and> k \<le> 13))"

definition trim :: "string \<Rightarrow> string" where
  "trim s = rev (dropWhile isspace_c (rev (dropWhile isspace_c s)))"

definition effective_model :: "string \<Rightarrow> string" where
  "effective_model input = (if input = [] then ''Default'' else input)"

definition model_matches :: "string \<Rightarrow> string \<times> real \<Rightarrow> bool" where
  "model_matches car_model row = (map tolower_c (trim (fst row)) = map tolower_c car_model)"

definition car_co2_lookup :: "(string \<times> real) list option \<Rightarrow> string \<Rightarrow> real" where
  "car_co2_lookup cars input =
     (case cars of
        None \<Rightarrow> DEFAULT_CO2_GKM
      | Some table \<Rightarrow>
          (case find (model_matches (effective_model input)) table of
             None \<Rightarrow> DEFAULT_CO2_GKM
           | Some row \<Rightarrow> snd row))"

text \<open>
  The mode times of \<^verbatim>\<open>shortp\<close>, summed over the steps \<open>(u, v)\<close> of the path.  A traffic factor
  \<^verbatim>\<open>+0.0\<close> makes the C quotient \<^verbatim>\<open>CAR_FREEFLOW_KMPH/factor\<close> infinite and the car minutes of the
  step 0; the model says so explicitly, because real division by zero is 0.  The reals have one
  zero only: a factor \<^verbatim>\<open>-0.0\<close>, whose quotient is minus infinity and is raised to 5 km/h, is
  outside the model, and the statements below about car times are about steps whose factor is
  not zero.
\<close>

definition car_step_min :: "real \<Rightarrow> real \<Rightarrow> real" where
  "car_step_min d factor =
     (if factor = 0 then 0
      else (let car_speed0 = CAR_FREEFLOW_KMPH / factor;
                car_speed = (if car_speed0 < 5 then 5 else car_speed0)
            in (d / car_speed) * 60))"

definition mode_step :: "Graph \<Rightarrow> real \<times> real \<times> real \<Rightarrow> nat \<times> nat \<Rightarrow> real \<times> real \<times> real" where
  "mode_step g tot uv =
     (case tot of (total_car_min, total_bike_min, total_walk_min) \<Rightarrow>
      case uv of (u, w) \<Rightarrow>
        (let e = edges g ! (u * n g + w);
             d = distance_km e;
             factor = traffic_factor e
         in (total_car_min + car_step_min d factor,
             total_bike_min + (d / BIKE_KMPH) * 60,
             total_walk_min + (d / WALK_KMPH) * 60)))"

definition steps :: "nat list \<Rightarrow> (nat \<times> nat) list" where
  "steps path = zip path (tl path)"

definition mode_times :: "Graph \<Rightarrow> nat list \<Rightarrow> real \<times> real \<times> real" where
  "mode_times g path = foldl (mode_step g) (0, 0, 0) (steps path)"

definition route_km :: "Graph \<Rightarrow> nat list \<Rightarrow> real" where
  "route_km g path = (\<Sum>(u, w) \<leftarrow> steps path. distance_km (edges g ! (u * n g + w)))"

section \<open>carbon.c: Dijkstra on the dense graph\<close>

record DijkNode =
  nd_dist :: real
  nd_prev :: int
  nd_visited :: bool

text \<open>The linear scan for the unvisited node of least distance below \<open>INF\<close>; \<open>-1\<close> if none.\<close>

definition scan_step :: "(nat \<Rightarrow> DijkNode) \<Rightarrow> nat \<Rightarrow> int \<times> real \<Rightarrow> int \<times> real" where
  "scan_step nodes i ub =
     (if \<not> nd_visited (nodes i) \<and> nd_dist (nodes i) < snd ub then (int i, nd_dist (nodes i)) else ub)"

definition scan_min :: "nat \<Rightarrow> (nat \<Rightarrow> DijkNode) \<Rightarrow> int" where
  "scan_min k nodes = fst (fold (scan_step nodes) [0..<k] (- 1, INF_val))"

definition relax_step :: "Graph \<Rightarrow> nat \<Rightarrow> nat \<Rightarrow> (nat \<Rightarrow> DijkNode) \<Rightarrow> (nat \<Rightarrow> DijkNode)" where
  "relax_step g u w nodes =
     (let e = edges g ! (u * n g + w) in
      if v e \<ge> 0 \<and> \<not> nd_visited (nodes w)
      then (let alt = nd_dist (nodes u) + co2_cost e in
            if alt < nd_dist (nodes w)
            then nodes(w := (nodes w)\<lparr>nd_dist := alt, nd_prev := int u\<rparr>)
            else nodes)
      else nodes)"

definition relax_all :: "Graph \<Rightarrow> nat \<Rightarrow> (nat \<Rightarrow> DijkNode) \<Rightarrow> (nat \<Rightarrow> DijkNode)" where
  "relax_all g u nodes = fold (relax_step g u) [0..<n g] nodes"

definition unvisited :: "nat \<Rightarrow> (nat \<Rightarrow> DijkNode) \<Rightarrow> nat set" where
  "unvisited k nodes = {i. i < k \<and> \<not> nd_visited (nodes i)}"

lemma scan_fold_inv:
  assumes "\<forall>i \<in> set xs. i < k"
      and "fst ub = - 1 \<or> (0 \<le> fst ub \<and> nat (fst ub) < k \<and> \<not> nd_visited (nodes (nat (fst ub))))"
  shows "fst (fold (scan_step nodes) xs ub) = - 1 \<or>
         (0 \<le> fst (fold (scan_step nodes) xs ub) \<and> nat (fst (fold (scan_step nodes) xs ub)) < k \<and>
          \<not> nd_visited (nodes (nat (fst (fold (scan_step nodes) xs ub)))))"
  using assms
proof (induction xs arbitrary: ub)
  case Nil
  then show ?case by simp
next
  case (Cons i xs)
  have "fst (scan_step nodes i ub) = - 1 \<or>
        (0 \<le> fst (scan_step nodes i ub) \<and> nat (fst (scan_step nodes i ub)) < k \<and>
         \<not> nd_visited (nodes (nat (fst (scan_step nodes i ub)))))"
    using Cons.prems by (auto simp: scan_step_def)
  with Cons.IH [of "scan_step nodes i ub"] Cons.prems(1) show ?case by simp
qed

lemma scan_min_unvisited:
  assumes "scan_min k nodes \<noteq> - 1"
  shows "nat (scan_min k nodes) \<in> unvisited k nodes"
  using scan_fold_inv [of "[0..<k]" k "(- 1, INF_val)" nodes] assms
  by (auto simp: scan_min_def unvisited_def)

lemma relax_step_visited: "nd_visited (relax_step g u w nodes i) = nd_visited (nodes i)"
  by (simp add: relax_step_def Let_def)

lemma fold_relax_visited: "nd_visited (fold (relax_step g u) ws nodes i) = nd_visited (nodes i)"
  by (induction ws arbitrary: nodes) (simp_all add: relax_step_visited)

lemma relax_all_visited: "nd_visited (relax_all g u nodes i) = nd_visited (nodes i)"
  by (simp add: relax_all_def fold_relax_visited)

lemma finite_unvisited: "finite (unvisited k nodes)"
  by (simp add: unvisited_def)

lemma unvisited_after_visit:
  "unvisited k (relax_all g u (nodes(u := (nodes u)\<lparr>nd_visited := True\<rparr>))) = unvisited k nodes - {u}"
  by (auto simp: unvisited_def relax_all_visited)

text \<open>
  The main loop.  Every round marks one more node visited, so the number of unvisited nodes is a
  termination measure.
\<close>

function dijkstra_loop :: "Graph \<Rightarrow> nat \<Rightarrow> (nat \<Rightarrow> DijkNode) \<Rightarrow> (nat \<Rightarrow> DijkNode)" where
  "dijkstra_loop g dst nodes =
     (let u = scan_min (n g) nodes in
      if u = - 1 then nodes
      else if u = int dst then nodes
      else dijkstra_loop g dst
             (relax_all g (nat u) (nodes(nat u := (nodes (nat u))\<lparr>nd_visited := True\<rparr>))))"
  by pat_completeness auto
termination
proof (relation "measure (\<lambda>(g, dst, nodes). card (unvisited (n g) nodes))")
  show "wf (measure (\<lambda>(g, dst, nodes). card (unvisited (n g) nodes)))" by simp
next
  fix g :: Graph and dst :: nat and nodes :: "nat \<Rightarrow> DijkNode" and u :: int
  assume u: "u = scan_min (n g) nodes" and ne: "u \<noteq> - 1"
  have "nat u \<in> unvisited (n g) nodes"
    using scan_min_unvisited [of "n g" nodes] u ne by simp
  with finite_unvisited [of "n g" nodes]
  have "card (unvisited (n g) nodes - {nat u}) < card (unvisited (n g) nodes)"
    by (rule card_Diff1_less)
  then show "((g, dst, relax_all g (nat u) (nodes(nat u := (nodes (nat u))\<lparr>nd_visited := True\<rparr>))),
              g, dst, nodes) \<in> measure (\<lambda>(g, dst, nodes). card (unvisited (n g) nodes))"
    by (simp add: unvisited_after_visit)
qed

declare dijkstra_loop.simps [simp del]

text \<open>
  The path is read backwards through \<^verbatim>\<open>prev\<close> into \<^verbatim>\<open>tmp[1024]\<close>; \<open>room\<close> is the number of free
  slots left (the loop condition \<^verbatim>\<open>k < 1024\<close>).
\<close>

fun walk_prev :: "nat \<Rightarrow> (nat \<Rightarrow> DijkNode) \<Rightarrow> int \<Rightarrow> nat list" where
  "walk_prev 0 nodes cur = []"
| "walk_prev (Suc room) nodes cur =
     (if cur = - 1 then [] else nat cur # walk_prev room nodes (nd_prev (nodes (nat cur))))"

definition init_nodes :: "nat \<Rightarrow> nat \<Rightarrow> DijkNode" where
  "init_nodes src = (\<lambda>i. \<lparr>nd_dist = INF_val, nd_prev = - 1, nd_visited = False\<rparr>)
                      (src := \<lparr>nd_dist = 0, nd_prev = - 1, nd_visited = False\<rparr>)"

text \<open>\<^verbatim>\<open>dijkstra\<close> returns 0 (\<open>None\<close>) when the target was not reached, else the path and its cost.\<close>

definition dijkstra :: "Graph \<Rightarrow> nat \<Rightarrow> nat \<Rightarrow> (nat list \<times> real) option" where
  "dijkstra g src dst =
     (let nodes = dijkstra_loop g dst (init_nodes src) in
      if nd_dist (nodes dst) \<ge> INF_val / 2 then None
      else Some (rev (walk_prev 1024 nodes (int dst)), nd_dist (nodes dst)))"

datatype failure = Die string | NoRoute

text \<open>
  What \<^verbatim>\<open>shortp\<close> does once the two city names are resolved to \<open>src\<close> and \<open>dst\<close> and the
  weights are in place: there is no test that the two differ.
\<close>

definition shortp_route :: "Graph \<Rightarrow> nat \<Rightarrow> nat \<Rightarrow> failure + nat list \<times> real \<times> real \<times> real \<times> real" where
  "shortp_route g src dst =
     (case dijkstra g src dst of
        None \<Rightarrow> Inl NoRoute
      | Some (path, total_co2) \<Rightarrow> Inr (path, total_co2, mode_times g path))"

section \<open>adb[1].h: speeds and estimated times\<close>

definition CAR_KMH :: real where
  "CAR_KMH = 40"

definition BIKE_KMH :: real where
  "BIKE_KMH = 15"

definition WALK_KMH :: real where
  "WALK_KMH = 5"

definition compute_time_min :: "real \<Rightarrow> real \<Rightarrow> real" where
  "compute_time_min km speed_kmh = (if speed_kmh \<le> 0 then 0 else (km / speed_kmh) * 60)"

text \<open>The three times that \<^verbatim>\<open>display_results\<close> and \<^verbatim>\<open>write_html\<close> compute for a route of \<open>km\<close> km.\<close>

definition eta_minutes :: "real \<Rightarrow> real \<times> real \<times> real" where
  "eta_minutes km =
     (compute_time_min km CAR_KMH, compute_time_min km BIKE_KMH, compute_time_min km WALK_KMH)"

subsection \<open>A two-city example\<close>

text \<open>Two cities joined by one road of length \<open>d\<close> km with traffic multiplier \<open>tf\<close>.\<close>

definition two_city_graph :: "real \<Rightarrow> real \<Rightarrow> Graph" where
  "two_city_graph d tf =
     \<lparr>n = 2,
      cities = [\<lparr>name = ''A'', lon = 0, lat = 0\<rparr>, \<lparr>name = ''B'', lon = 1, lat = 0\<rparr>],
      edges = [\<lparr>v = - 1, distance_km = 0, traffic_factor = 1, co2_cost = 0\<rparr>,
               \<lparr>v = 1, distance_km = d, traffic_factor = tf, co2_cost = 0\<rparr>,
               \<lparr>v = 0, distance_km = d, traffic_factor = tf, co2_cost = 0\<rparr>,
               \<lparr>v = - 1, distance_km = 0, traffic_factor = 1, co2_cost = 0\<rparr>]\<rparr>"

section \<open>carbon.c: properties of the traffic cache\<close>

subsection \<open>Freshness\<close>

lemma sint_ttl_seconds: "sint ((scast (t :: 32 word) :: 64 word) * 60) = sint t * 60"
proof -
  have b: "- (2 ^ 31) \<le> sint t" "sint t < 2 ^ 31"
    using sint_ge [of t] sint_lt [of t] by simp_all
  have "sint ((scast t :: 64 word)) = sint t"
    by (simp add: sint_up_scast is_up)
  then show ?thesis
    apply (simp add: sint_word_ariths)
    apply (rule signed_take_bit_int_eq_self)
    using b by simp_all
qed

lemma sint_age_exact:
  assumes "- (2 ^ 63) \<le> sint (now :: 64 word) - sint ts" "sint now - sint ts < 2 ^ 63"
  shows "sint (now - ts) = sint now - sint ts"
  using assms by (simp add: sint_word_diff signed_take_bit_int_eq_self)

lemma sint_age_wrapped:
  assumes "2 ^ 63 \<le> sint (now :: 64 word) - sint (ts :: 64 word)"
  shows "sint (now - ts) < 0"
proof -
  have "sint now < 2 ^ 63" "- (2 ^ 63) \<le> sint ts"
    using sint_lt [of now] sint_ge [of ts] by simp_all
  then have "sint now - sint ts < 2 ^ 64" by simp
  moreover have "signed_take_bit 63 (sint now - sint ts) \<le> (sint now - sint ts) - 2 ^ Suc 63"
    using assms by (rule signed_take_bit_int_less_eq)
  moreover have "sint (now - ts) = signed_take_bit 63 (sint now - sint ts)"
    by (simp add: sint_word_diff)
  ultimately show ?thesis by (simp del: signed_take_bit_negative_iff)
qed

lemma fresh_stamp_iff:
  assumes "0 \<le> sint now"
  shows "is_cache_fresh (Some cf) ttl now \<longleftrightarrow>
     (\<exists>ts. stamp cf = Some ts \<and> 0 \<le> sint now - sint ts \<and> sint now - sint ts \<le> sint ttl * 60)"
proof (cases "stamp cf")
  case None
  then show ?thesis by (simp add: is_cache_fresh_def)
next
  case (Some ts)
  have lo: "- (2 ^ 63) \<le> sint now - sint ts"
    using assms sint_lt [of ts] by simp
  have t: "sint ttl * 60 < 2 ^ 63" using sint_lt [of ttl] by simp
  show ?thesis
  proof (cases "sint now - sint ts < 2 ^ 63")
    case True
    then have "sint (now - ts) = sint now - sint ts" using lo by (simp add: sint_age_exact)
    with Some show ?thesis by (auto simp add: is_cache_fresh_def sint_ttl_seconds Let_def)
  next
    case False
    then have "sint (now - ts) < 0" by (simp add: sint_age_wrapped)
    with Some False t show ?thesis by (auto simp add: is_cache_fresh_def sint_ttl_seconds Let_def)
  qed
qed

text \<open>
  C6.  With the clock not before the epoch, \<^verbatim>\<open>is_cache_fresh\<close> answers yes exactly when the file
  opens, a time stamp parses from it, and the age \<open>now - timestamp\<close> (in seconds, as an integer,
  with no wrap-around) lies between 0 and \<open>ttl_minutes * 60\<close>: a stamp in the future is never
  fresh.  In particular a snapshot that \<^verbatim>\<open>save_traffic_cache\<close> wrote at time \<open>T\<close> is fresh at
  \<open>now\<close> exactly when \<open>T \<le> now \<le> T + ttl_minutes * 60\<close>, so it is stale from the first second after
  the ttl has elapsed.
\<close>

theorem is_cache_fresh_iff:
  assumes "0 \<le> sint now"
  shows "(is_cache_fresh f ttl now \<longleftrightarrow>
           (\<exists>cf ts. f = Some cf \<and> stamp cf = Some ts \<and>
              0 \<le> sint now - sint ts \<and> sint now - sint ts \<le> sint ttl * 60)) \<and>
         (is_cache_fresh (fst (save_traffic_cache True old g T)) ttl now \<longleftrightarrow>
           (sint T \<le> sint now \<and> sint now \<le> sint T + sint ttl * 60))"
proof -
  have a: "is_cache_fresh f ttl now \<longleftrightarrow>
           (\<exists>cf ts. f = Some cf \<and> stamp cf = Some ts \<and>
              0 \<le> sint now - sint ts \<and> sint now - sint ts \<le> sint ttl * 60)"
  proof (cases f)
    case None
    then show ?thesis by (simp add: is_cache_fresh_def)
  next
    case (Some cf)
    then show ?thesis using fresh_stamp_iff [OF assms, of cf ttl] by simp
  qed
  have b: "is_cache_fresh (fst (save_traffic_cache True old g T)) ttl now \<longleftrightarrow>
           (sint T \<le> sint now \<and> sint now \<le> sint T + sint ttl * 60)"
    using fresh_stamp_iff [OF assms, of "\<lparr>stamp = Some T, rows = cache_rows g\<rparr>" ttl]
    by (auto simp add: save_traffic_cache_def)
  from a b show ?thesis by blast
qed

theorem is_cache_fresh_iff_witness:
  "0 \<le> sint (1000 :: 64 word) \<and>
   is_cache_fresh (Some \<lparr>stamp = Some 100, rows = []\<rparr>) 15 1000 \<and>
   \<not> is_cache_fresh (Some \<lparr>stamp = Some 100, rows = []\<rparr>) 15 1001 \<and>
   \<not> is_cache_fresh (Some \<lparr>stamp = Some 2000, rows = []\<rparr>) 15 1000 \<and>
   \<not> is_cache_fresh (Some \<lparr>stamp = None, rows = []\<rparr>) 15 1000 \<and>
   \<not> is_cache_fresh None 15 1000"
proof -
  have h: "0 \<le> sint (1000 :: 64 word)" by simp
  have h': "0 \<le> sint (1001 :: 64 word)" by simp
  show ?thesis
    using h
      is_cache_fresh_iff [OF h, of "Some \<lparr>stamp = Some 100, rows = []\<rparr>" 15]
      is_cache_fresh_iff [OF h', of "Some \<lparr>stamp = Some 100, rows = []\<rparr>" 15]
      is_cache_fresh_iff [OF h, of "Some \<lparr>stamp = Some 2000, rows = []\<rparr>" 15]
      is_cache_fresh_iff [OF h, of "Some \<lparr>stamp = None, rows = []\<rparr>" 15]
      is_cache_fresh_iff [OF h, of None 15]
    by simp
qed


subsection \<open>Loading\<close>

lemma store_tf_Some:
  assumes "store_tf es i x = Some es'"
  shows "length es' = length es"
    and "v (es' ! p) = v (es ! p)"
    and "distance_km (es' ! p) = distance_km (es ! p)"
    and "co2_cost (es' ! p) = co2_cost (es ! p)"
    and "p < length es \<Longrightarrow> traffic_factor (es' ! p) = (if p = i then x else traffic_factor (es ! p))"
  using assms by (auto simp: store_tf_def nth_list_update split: if_splits)

lemma store_tf_in_range: "i < length es \<Longrightarrow> \<exists>es'. store_tf es i x = Some es'"
  by (simp add: store_tf_def)

lemma reset_tf_Some:
  assumes "\<forall>i \<in> set js. i < length es"
  shows "\<exists>es'. reset_tf js es = Some es' \<and> length es' = length es \<and>
           (\<forall>p. v (es' ! p) = v (es ! p) \<and> distance_km (es' ! p) = distance_km (es ! p) \<and>
                co2_cost (es' ! p) = co2_cost (es ! p)) \<and>
           (\<forall>p < length es. traffic_factor (es' ! p) = (if p \<in> set js then 1 else traffic_factor (es ! p)))"
  using assms
proof (induction js arbitrary: es)
  case Nil
  then show ?case by simp
next
  case (Cons i js)
  then have "i < length es" by simp
  then obtain es1 where s: "store_tf es i 1 = Some es1"
    using store_tf_in_range by blast
  note f = store_tf_Some [OF s]
  have "\<forall>i \<in> set js. i < length es1" using Cons.prems f(1) by simp
  from Cons.IH [OF this] obtain es' where r: "reset_tf js es1 = Some es'" "length es' = length es1"
    "\<forall>p. v (es' ! p) = v (es1 ! p) \<and> distance_km (es' ! p) = distance_km (es1 ! p) \<and>
                co2_cost (es' ! p) = co2_cost (es1 ! p)"
    "\<forall>p < length es1. traffic_factor (es' ! p) = (if p \<in> set js then 1 else traffic_factor (es1 ! p))"
    by blast
  show ?case
    using s r f by auto
qed

lemma cell_index_lt: "a < k \<Longrightarrow> b < k \<Longrightarrow> a * k + b < k * (k::nat)"
proof -
  assume a: "a < k" and b: "b < k"
  then have "a * k + b < a * k + k" by simp
  also have "\<dots> = Suc a * k" by simp
  also have "\<dots> \<le> k * k" using a by (metis Suc_leI mult.commute mult_le_mono2)
  finally show ?thesis .
qed

lemma cell_index_inj:
  assumes "b < k" "d < k" "a * k + b = c * k + (d::nat)"
  shows "a = c \<and> b = d"
proof -
  have "(a * k + b) div k = a" "(c * k + d) div k = c" using assms(1,2) by simp_all
  moreover have "(a * k + b) div k = (c * k + d) div k" using assms(3) by (rule arg_cong)
  ultimately have "a = c" by simp
  then show ?thesis using assms by simp
qed

lemma apply_row_Some:
  assumes len: "length es = k * k"
  shows "\<exists>es'. apply_row k r es = Some es' \<and> length es' = length es \<and>
           (\<forall>p. v (es' ! p) = v (es ! p) \<and> distance_km (es' ! p) = distance_km (es ! p) \<and>
                co2_cost (es' ! p) = co2_cost (es ! p)) \<and>
           (\<forall>a < k. \<forall>b < k. traffic_factor (es' ! (a * k + b)) =
                (if row_hits k a b r then snd (snd r) else traffic_factor (es ! (a * k + b))))"
proof -
  obtain u w fc where r: "r = (u, w, fc)" by (cases r)
  show ?thesis
  proof (cases "u \<ge> 0 \<and> u < int k \<and> w \<ge> 0 \<and> w < int k")
    case False
    then show ?thesis by (auto simp: apply_row_def row_hits_def r)
  next
    case True
    define un wn where "un = nat u" and "wn = nat w"
    have uw: "u = int un" "w = int wn" "un < k" "wn < k" using True unfolding un_def wn_def by linarith+
    have i1: "nat (u * int k + w) = un * k + wn" unfolding uw by (simp add: nat_add_distrib nat_mult_distrib)
    have i2: "nat (w * int k + u) = wn * k + un" unfolding uw by (simp add: nat_add_distrib nat_mult_distrib)
    have r1: "un * k + wn < length es" using uw len by (simp add: cell_index_lt)
    then obtain es1 where s1: "store_tf es (un * k + wn) fc = Some es1"
      using store_tf_in_range by blast
    note f1 = store_tf_Some [OF s1]
    have r2: "wn * k + un < length es1" using uw len f1(1) by (simp add: cell_index_lt)
    then obtain es2 where s2: "store_tf es1 (wn * k + un) fc = Some es2"
      using store_tf_in_range by blast
    note f2 = store_tf_Some [OF s2]
    have ap: "apply_row k r es = Some es2"
      using True s1 s2 by (simp add: apply_row_def r i1 i2)
    have tf: "traffic_factor (es2 ! (a * k + b)) =
                (if row_hits k a b r then snd (snd r) else traffic_factor (es ! (a * k + b)))"
      if ab: "a < k" "b < k" for a b
    proof -
      have p: "a * k + b < length es" "a * k + b < length es1" using ab len f1(1) by (simp_all add: cell_index_lt)
      have e1: "a * k + b = un * k + wn \<longleftrightarrow> a = un \<and> b = wn"
        using cell_index_inj [of b k wn a un] ab uw by auto
      have e2: "a * k + b = wn * k + un \<longleftrightarrow> a = wn \<and> b = un"
        using cell_index_inj [of b k un a wn] ab uw by auto
      have h: "row_hits k a b r \<longleftrightarrow> (a = un \<and> b = wn) \<or> (a = wn \<and> b = un)"
        using True by (auto simp: row_hits_def r uw)
      have g2: "traffic_factor (es2 ! (a * k + b)) =
                  (if a = wn \<and> b = un then fc else traffic_factor (es1 ! (a * k + b)))"
        using f2(5) [OF p(2)] by (simp only: e2)
      have g1: "traffic_factor (es1 ! (a * k + b)) =
                  (if a = un \<and> b = wn then fc else traffic_factor (es ! (a * k + b)))"
        using f1(5) [OF p(1)] by (simp only: e1)
      have sr: "snd (snd r) = fc" by (simp add: r)
      have "traffic_factor (es2 ! (a * k + b)) =
                (if (a = un \<and> b = wn) \<or> (a = wn \<and> b = un) then fc else traffic_factor (es ! (a * k + b)))"
        unfolding g2 g1 by (simp only: split: if_split) blast
      then show ?thesis
        by (simp only: sr h)
    qed
    show ?thesis
      using ap f1 f2 tf by auto
  qed
qed

lemma apply_rows_Some:
  assumes "length es = k * k"
  shows "\<exists>es'. apply_rows k rs es = Some es' \<and> length es' = length es \<and>
           (\<forall>p. v (es' ! p) = v (es ! p) \<and> distance_km (es' ! p) = distance_km (es ! p) \<and>
                co2_cost (es' ! p) = co2_cost (es ! p)) \<and>
           (\<forall>a < k. \<forall>b < k. traffic_factor (es' ! (a * k + b)) =
                fold (\<lambda>r x. if row_hits k a b r then snd (snd r) else x) rs (traffic_factor (es ! (a * k + b))))"
  using assms
proof (induction rs arbitrary: es)
  case Nil
  then show ?case by simp
next
  case (Cons r rs)
  from apply_row_Some [OF Cons.prems, of r] obtain es1 where
    a: "apply_row k r es = Some es1" "length es1 = length es"
       "\<forall>p. v (es1 ! p) = v (es ! p) \<and> distance_km (es1 ! p) = distance_km (es ! p) \<and>
                co2_cost (es1 ! p) = co2_cost (es ! p)"
       "\<forall>a < k. \<forall>b < k. traffic_factor (es1 ! (a * k + b)) =
                (if row_hits k a b r then snd (snd r) else traffic_factor (es ! (a * k + b)))"
    by blast
  have "length es1 = k * k" using a(2) Cons.prems by simp
  from Cons.IH [OF this] obtain es' where
    b: "apply_rows k rs es1 = Some es'" "length es' = length es1"
       "\<forall>p. v (es' ! p) = v (es1 ! p) \<and> distance_km (es' ! p) = distance_km (es1 ! p) \<and>
                co2_cost (es' ! p) = co2_cost (es1 ! p)"
       "\<forall>a < k. \<forall>b < k. traffic_factor (es' ! (a * k + b)) =
                fold (\<lambda>r x. if row_hits k a b r then snd (snd r) else x) rs (traffic_factor (es1 ! (a * k + b)))"
    by blast
  show ?case using a b by simp
qed


text \<open>
  C10, as the code has it.  When the file opens and its time stamp parses, \<^verbatim>\<open>load_traffic_cache\<close>
  on an \<open>n \<times> n\<close> matrix returns 1 without ever storing outside the matrix; it leaves \<open>n\<close>, the
  cities and the fields \<open>v\<close>, \<open>distance_km\<close> and \<open>co2_cost\<close> of every slot as they were, and
  the traffic factor of slot \<open>(a, b)\<close> is 1.0 overwritten by the rows that are in range and name
  the pair in either direction (rows out of range are skipped).  When the file does not open or
  no time stamp parses, the function returns 0 and the graph is untouched: nothing is reset.
\<close>

theorem load_traffic_cache_parsed:
  assumes len: "length (edges g) = n g * n g"
  shows "(f = None \<or> (\<exists>cf. f = Some cf \<and> stamp cf = None) \<longrightarrow>
            load_traffic_cache f g = Some (g, 0)) \<and>
         (\<forall>cf ts. f = Some cf \<and> stamp cf = Some ts \<longrightarrow>
           (\<exists>g'. load_traffic_cache f g = Some (g', 1) \<and> n g' = n g \<and> cities g' = cities g \<and>
              length (edges g') = n g * n g \<and>
              (\<forall>p. v (edges g' ! p) = v (edges g ! p) \<and>
                   distance_km (edges g' ! p) = distance_km (edges g ! p) \<and>
                   co2_cost (edges g' ! p) = co2_cost (edges g ! p)) \<and>
              (\<forall>a < n g. \<forall>b < n g.
                 traffic_factor (edges g' ! (a * n g + b)) = loaded_factor (n g) (rows cf) a b)))"
proof (intro conjI allI impI)
  assume "f = None \<or> (\<exists>cf. f = Some cf \<and> stamp cf = None)"
  then show "load_traffic_cache f g = Some (g, 0)"
    by (auto simp: load_traffic_cache_def)
next
  fix cf ts
  assume fc: "f = Some cf \<and> stamp cf = Some ts"
  then have f: "f = Some cf" and ts: "stamp cf = Some ts" by simp_all
  show "\<exists>g'. load_traffic_cache f g = Some (g', 1) \<and> n g' = n g \<and> cities g' = cities g \<and>
           length (edges g') = n g * n g \<and>
           (\<forall>p. v (edges g' ! p) = v (edges g ! p) \<and>
                distance_km (edges g' ! p) = distance_km (edges g ! p) \<and>
                co2_cost (edges g' ! p) = co2_cost (edges g ! p)) \<and>
           (\<forall>a < n g. \<forall>b < n g.
              traffic_factor (edges g' ! (a * n g + b)) = loaded_factor (n g) (rows cf) a b)"
  proof -
  have "\<forall>i \<in> set [0..<n g * n g]. i < length (edges g)" using len by simp
  from reset_tf_Some [OF this] obtain es0 where
    a: "reset_tf [0..<n g * n g] (edges g) = Some es0" "length es0 = length (edges g)"
       "\<forall>p. v (es0 ! p) = v (edges g ! p) \<and> distance_km (es0 ! p) = distance_km (edges g ! p) \<and>
                co2_cost (es0 ! p) = co2_cost (edges g ! p)"
       "\<forall>p < length (edges g). traffic_factor (es0 ! p) = (if p \<in> set [0..<n g * n g] then 1 else traffic_factor (edges g ! p))"
    by blast
  have l0: "length es0 = n g * n g" using a(2) len by simp
  from apply_rows_Some [OF l0, of "rows cf"] obtain es1 where
    b: "apply_rows (n g) (rows cf) es0 = Some es1" "length es1 = length es0"
       "\<forall>p. v (es1 ! p) = v (es0 ! p) \<and> distance_km (es1 ! p) = distance_km (es0 ! p) \<and>
                co2_cost (es1 ! p) = co2_cost (es0 ! p)"
       "\<forall>a < n g. \<forall>b < n g. traffic_factor (es1 ! (a * n g + b)) =
                fold (\<lambda>r x. if row_hits (n g) a b r then snd (snd r) else x) (rows cf) (traffic_factor (es0 ! (a * n g + b)))"
    by blast
  have one: "traffic_factor (es0 ! (a * n g + b)) = 1" if "a < n g" "b < n g" for a b
    using a(4) that len cell_index_lt [of a "n g" b] by simp
  have "load_traffic_cache f g = Some (g\<lparr>edges := es1\<rparr>, 1)"
    using a(1) b(1) f ts by (simp add: load_traffic_cache_def)
  moreover have "\<forall>a < n g. \<forall>b < n g.
              traffic_factor (es1 ! (a * n g + b)) = loaded_factor (n g) (rows cf) a b"
    using b(4) one by (simp add: loaded_factor_def)
  ultimately show ?thesis
    using a b l0 by simp
qed
qed

theorem load_traffic_cache_parsed_witness:
  "length (edges (two_city_graph 10 (5 / 2))) = n (two_city_graph 10 (5 / 2)) * n (two_city_graph 10 (5 / 2)) \<and>
   (\<exists>g'. load_traffic_cache (Some \<lparr>stamp = Some 100, rows = [(0, 1, 3), (5, 0, 2), (- 1, 1, 9)]\<rparr>)
            (two_city_graph 10 (5 / 2)) = Some (g', 1) \<and>
          length (edges g') = 4 \<and>
          map traffic_factor (edges g') = [1, 3, 3, 1] \<and>
          map distance_km (edges g') = [0, 10, 10, 0] \<and>
          map v (edges g') = [- 1, 1, 0, - 1])"
proof -
  let ?g = "two_city_graph 10 (5 / 2)"
  let ?cf = "\<lparr>stamp = Some 100, rows = [(0, 1, 3), (5, 0, 2), (- 1, 1, 9)]\<rparr>"
  have len: "length (edges ?g) = n ?g * n ?g"
    by (simp add: two_city_graph_def)
  have n2: "n ?g = 2" by (simp add: two_city_graph_def)
  from load_traffic_cache_parsed [OF len, of "Some ?cf"]
  obtain g' where g': "load_traffic_cache (Some ?cf) ?g = Some (g', 1)"
      "length (edges g') = n ?g * n ?g"
      "\<forall>p. v (edges g' ! p) = v (edges ?g ! p) \<and>
           distance_km (edges g' ! p) = distance_km (edges ?g ! p) \<and>
           co2_cost (edges g' ! p) = co2_cost (edges ?g ! p)"
      "\<forall>a < n ?g. \<forall>b < n ?g.
         traffic_factor (edges g' ! (a * n ?g + b)) = loaded_factor (n ?g) (rows ?cf) a b"
    by auto
  have l4: "length (edges g') = 4" using g'(2) n2 by simp
  have tf: "traffic_factor (edges g' ! (a * 2 + b)) = loaded_factor 2 (rows ?cf) a b"
    if "a < 2" "b < 2" for a b
    using g'(4) that n2 by simp
  have t0: "traffic_factor (edges g' ! 0) = 1"
    using tf [of 0 0] by (simp add: loaded_factor_def row_hits_def)
  have t1: "traffic_factor (edges g' ! 1) = 3"
    using tf [of 0 1] by (simp add: loaded_factor_def row_hits_def)
  have t2: "traffic_factor (edges g' ! 2) = 3"
    using tf [of 1 0] by (simp add: loaded_factor_def row_hits_def)
  have t3: "traffic_factor (edges g' ! 3) = 1"
    using tf [of 1 1] by (simp add: loaded_factor_def row_hits_def)
  have nth4: "map h xs = [h (xs ! 0), h (xs ! 1), h (xs ! 2), h (xs ! 3)]"
    if "length xs = 4" for h :: "Edge \<Rightarrow> 'b" and xs
  proof -
    from that obtain a b c d where "xs = [a, b, c, d]"
      by (auto simp: length_Suc_conv numeral_eq_Suc)
    then show ?thesis by simp
  qed
  have m1: "map traffic_factor (edges g') = [1, 3, 3, 1]"
    using nth4 [OF l4, of traffic_factor] t0 t1 t2 t3 by simp
  have m2: "map distance_km (edges g') = [0, 10, 10, 0]"
    using nth4 [OF l4, of distance_km] g'(3) by (simp add: two_city_graph_def)
  have m3: "map v (edges g') = [- 1, 1, 0, - 1]"
    using nth4 [OF l4, of v] g'(3) by (simp add: two_city_graph_def)
  show ?thesis
  proof (rule conjI [OF len], rule exI [of _ g'])
    show "load_traffic_cache (Some ?cf) ?g = Some (g', 1) \<and>
          length (edges g') = 4 \<and>
          map traffic_factor (edges g') = [1, 3, 3, 1] \<and>
          map distance_km (edges g') = [0, 10, 10, 0] \<and>
          map v (edges g') = [- 1, 1, 0, - 1]"
      using g'(1) l4 m1 m2 m3 by (intro conjI)
  qed
qed

theorem load_traffic_cache_counterexample:
  "load_traffic_cache (Some \<lparr>stamp = None, rows = []\<rparr>) (two_city_graph 10 (5 / 2)) =
     Some (two_city_graph 10 (5 / 2), 0) \<and>
   traffic_factor (edges (two_city_graph 10 (5 / 2)) ! (0 * 2 + 1)) = 5 / 2 \<and>
   loaded_factor 2 [] 0 1 = 1"
  by (simp add: load_traffic_cache_def two_city_graph_def loaded_factor_def)

section \<open>carbon.c: properties of the cost model\<close>

lemma upt_4: "[0..<4] = [0, 1, 2, 3]"
  by code_simp

subsection \<open>Edge cost\<close>

lemma co2_loop_Some:
  assumes "distinct ps" "\<forall>p \<in> set ps. p < length es"
  shows "\<exists>es'. co2_loop c ps es = Some es' \<and> length es' = length es \<and>
           (\<forall>p < length es. es' ! p = (if p \<in> set ps then apply_co2_cell c (es ! p) else es ! p))"
  using assms
proof (induction ps arbitrary: es)
  case Nil
  then show ?case by simp
next
  case (Cons q ps)
  let ?es1 = "es[q := apply_co2_cell c (es ! q)]"
  have "distinct ps" "\<forall>p \<in> set ps. p < length ?es1" using Cons.prems by simp_all
  from Cons.IH [OF this] obtain es' where
    r: "co2_loop c ps ?es1 = Some es'" "length es' = length ?es1"
       "\<forall>p < length ?es1. es' ! p = (if p \<in> set ps then apply_co2_cell c (?es1 ! p) else ?es1 ! p)"
    by blast
  have q: "q < length es" "q \<notin> set ps" using Cons.prems by simp_all
  have "es' ! p = (if p \<in> set (q # ps) then apply_co2_cell c (es ! p) else es ! p)"
    if "p < length es" for p
  proof (cases "p = q")
    case True
    then show ?thesis using r(3) q that by simp
  next
    case False
    then show ?thesis using r(3) that by simp
  qed
  then show ?case using r(1,2) q(1) by simp
qed

lemma dense_graph_v:
  assumes "dense_graph g" "i < n g" "j < n g" "i \<noteq> j"
  shows "v (edges g ! (i * n g + j)) = int j"
proof -
  have p: "i * n g + j < n g * n g"
    using assms(2,3) cell_index_lt by simp
  have d: "(i * n g + j) div n g = i" "(i * n g + j) mod n g = j" using assms(3) by simp_all
  have "\<forall>p \<in> set [0..<n g * n g].
          v (edges g ! p) = (if p div n g = p mod n g then - 1 else int (p mod n g))"
    using assms(1) by (simp add: dense_graph_def list_all_iff)
  then have "v (edges g ! (i * n g + j)) =
        (if (i * n g + j) div n g = (i * n g + j) mod n g then - 1 else int ((i * n g + j) mod n g))"
    using p by simp
  then show ?thesis using assms(4) d by simp
qed

lemma apply_co2_weights_dense:
  assumes "dense_graph g"
  shows "\<exists>g'. apply_co2_weights g c = Some g' \<and> n g' = n g \<and> cities g' = cities g \<and>
           length (edges g') = n g * n g \<and>
           (\<forall>i < n g. \<forall>j < n g. i \<noteq> j \<longrightarrow>
              co2_cost (edges g' ! (i * n g + j)) =
                distance_km (edges g ! (i * n g + j)) * traffic_factor (edges g ! (i * n g + j)) * c \<and>
              distance_km (edges g' ! (i * n g + j)) = distance_km (edges g ! (i * n g + j)) \<and>
              traffic_factor (edges g' ! (i * n g + j)) = traffic_factor (edges g ! (i * n g + j)))"
proof -
  have len: "length (edges g) = n g * n g" using assms by (simp add: dense_graph_def)
  have "distinct [0..<n g * n g]" "\<forall>p \<in> set [0..<n g * n g]. p < length (edges g)"
    using len by simp_all
  from co2_loop_Some [OF this, of c] obtain es' where
    r: "co2_loop c [0..<n g * n g] (edges g) = Some es'" "length es' = length (edges g)"
       "\<forall>p < length (edges g). es' ! p =
          (if p \<in> set [0..<n g * n g] then apply_co2_cell c (edges g ! p) else edges g ! p)"
    by blast
  have cell: "es' ! (i * n g + j) = apply_co2_cell c (edges g ! (i * n g + j))"
    if "i < n g" "j < n g" for i j
    using r(3) len that cell_index_lt [of i "n g" j] by simp
  have "apply_co2_weights g c = Some (g\<lparr>edges := es'\<rparr>)"
    using r(1) by (simp add: apply_co2_weights_def)
  moreover have "co2_cost (es' ! (i * n g + j)) =
                distance_km (edges g ! (i * n g + j)) * traffic_factor (edges g ! (i * n g + j)) * c \<and>
              distance_km (es' ! (i * n g + j)) = distance_km (edges g ! (i * n g + j)) \<and>
              traffic_factor (es' ! (i * n g + j)) = traffic_factor (edges g ! (i * n g + j))"
    if "i < n g" "j < n g" "i \<noteq> j" for i j
    using cell [OF that(1,2)] dense_graph_v [OF assms that] by (simp add: apply_co2_cell_def)
  ultimately show ?thesis using r(2) len by simp
qed

lemma lookup_unknown:
  assumes "cars = None \<or> (\<exists>table. cars = Some table \<and>
             (\<forall>row \<in> set table. \<not> model_matches (effective_model input) row))"
  shows "car_co2_lookup cars input = 120"
proof (cases cars)
  case None
  then show ?thesis by (simp add: car_co2_lookup_def DEFAULT_CO2_GKM_def)
next
  case (Some table)
  then have "\<forall>row \<in> set table. \<not> model_matches (effective_model input) row" using assms by simp
  then have "find (model_matches (effective_model input)) table = None"
    by (simp add: find_None_iff)
  then show ?thesis using Some by (simp add: car_co2_lookup_def DEFAULT_CO2_GKM_def)
qed


lemma lookup_found:
  assumes "find (model_matches (effective_model input)) table = Some row"
  shows "car_co2_lookup (Some table) input = snd row"
  using assms by (simp add: car_co2_lookup_def)

text \<open>
  C4, as the code has it.  On the dense graph, \<^verbatim>\<open>apply_co2_weights\<close> gives every slot \<open>(i, j)\<close>
  with \<open>i \<noteq> j\<close> the cost \<open>distance_km * traffic_factor * car_co2_g_per_km\<close> and changes neither
  distance nor traffic factor.  The factor comes from the profile table: the typed name, or
  \<^verbatim>\<open>Default\<close> when the line is blank, is compared (lower-cased) with the trimmed, lower-cased
  model of each row, and the first row that matches gives the factor; when the table is missing
  or no row matches, the factor is 120 g/km.  So a blank line gives 120 only if the table has no
  row named \<^verbatim>\<open>Default\<close>.
\<close>

theorem co2_edge_cost:
  assumes "dense_graph g"
  shows "(\<exists>g'. apply_co2_weights g (car_co2_lookup cars input) = Some g' \<and> n g' = n g \<and>
            cities g' = cities g \<and> length (edges g') = n g * n g \<and>
            (\<forall>i < n g. \<forall>j < n g. i \<noteq> j \<longrightarrow>
               co2_cost (edges g' ! (i * n g + j)) =
                 distance_km (edges g ! (i * n g + j)) * traffic_factor (edges g ! (i * n g + j)) *
                 car_co2_lookup cars input \<and>
               distance_km (edges g' ! (i * n g + j)) = distance_km (edges g ! (i * n g + j)) \<and>
               traffic_factor (edges g' ! (i * n g + j)) = traffic_factor (edges g ! (i * n g + j)))) \<and>
         (cars = None \<or> (\<exists>table. cars = Some table \<and>
             (\<forall>row \<in> set table. \<not> model_matches (effective_model input) row))
            \<longrightarrow> car_co2_lookup cars input = 120) \<and>
         (\<forall>table row. cars = Some table \<and>
             find (model_matches (effective_model input)) table = Some row
            \<longrightarrow> car_co2_lookup cars input = snd row) \<and>
         car_co2_lookup cars [] = car_co2_lookup cars ''Default''"
proof (intro conjI)
  show "\<exists>g'. apply_co2_weights g (car_co2_lookup cars input) = Some g' \<and> n g' = n g \<and>
            cities g' = cities g \<and> length (edges g') = n g * n g \<and>
            (\<forall>i < n g. \<forall>j < n g. i \<noteq> j \<longrightarrow>
               co2_cost (edges g' ! (i * n g + j)) =
                 distance_km (edges g ! (i * n g + j)) * traffic_factor (edges g ! (i * n g + j)) *
                 car_co2_lookup cars input \<and>
               distance_km (edges g' ! (i * n g + j)) = distance_km (edges g ! (i * n g + j)) \<and>
               traffic_factor (edges g' ! (i * n g + j)) = traffic_factor (edges g ! (i * n g + j)))"
    by (rule apply_co2_weights_dense [OF assms])
  show "cars = None \<or> (\<exists>table. cars = Some table \<and>
             (\<forall>row \<in> set table. \<not> model_matches (effective_model input) row))
            \<longrightarrow> car_co2_lookup cars input = 120"
    using lookup_unknown [of cars input] by blast
  show "\<forall>table row. cars = Some table \<and>
             find (model_matches (effective_model input)) table = Some row
            \<longrightarrow> car_co2_lookup cars input = snd row"
    using lookup_found by blast
  have "effective_model [] = effective_model ''Default''"
    unfolding effective_model_def by simp
  then show "car_co2_lookup cars [] = car_co2_lookup cars ''Default''"
    unfolding car_co2_lookup_def by (rule arg_cong)
qed

theorem co2_edge_cost_witness:
  "dense_graph (two_city_graph 10 2) \<and>
   car_co2_lookup (Some [(''Swift'', 110)]) ''Tesla'' = 120 \<and>
   (\<exists>g'. apply_co2_weights (two_city_graph 10 2) (car_co2_lookup (Some [(''Swift'', 110)]) ''Tesla'')
            = Some g' \<and>
          co2_cost (edges g' ! 1) = 2400 \<and> co2_cost (edges g' ! 2) = 2400)"
proof -
  let ?g = "two_city_graph 10 2"
  let ?cars = "Some [(''Swift'', 110 :: real)]"
  have d: "dense_graph ?g"
    by (simp add: dense_graph_def two_city_graph_def upt_4)
  have nm: "\<not> model_matches (effective_model ''Tesla'') (''Swift'', 110)"
    by code_simp
  note t = co2_edge_cost [OF d, of ?cars "''Tesla''"]
  note t1 = t [THEN conjunct1]
  note t2 = t [THEN conjunct2, THEN conjunct1]
  have "\<exists>table. ?cars = Some table \<and>
          (\<forall>row \<in> set table. \<not> model_matches (effective_model ''Tesla'') row)"
    using nm by simp
  then have c: "car_co2_lookup ?cars ''Tesla'' = 120"
    using t2 by (rule_tac mp) auto
  from t1 obtain g' where g': "apply_co2_weights ?g (car_co2_lookup ?cars ''Tesla'') = Some g'"
    "\<forall>i < n ?g. \<forall>j < n ?g. i \<noteq> j \<longrightarrow>
               co2_cost (edges g' ! (i * n ?g + j)) =
                 distance_km (edges ?g ! (i * n ?g + j)) * traffic_factor (edges ?g ! (i * n ?g + j)) *
                 car_co2_lookup ?cars ''Tesla''"
    by blast
  have n2: "n ?g = 2" by (simp add: two_city_graph_def)
  have "co2_cost (edges g' ! (0 * 2 + 1)) = 2400"
    using g'(2) [rule_format, of 0 1] c by (simp add: two_city_graph_def)
  moreover have "co2_cost (edges g' ! (1 * 2 + 0)) = 2400"
    using g'(2) [rule_format, of 1 0] c by (simp add: two_city_graph_def)
  ultimately have "apply_co2_weights ?g (car_co2_lookup ?cars ''Tesla'') = Some g' \<and>
          co2_cost (edges g' ! 1) = 2400 \<and> co2_cost (edges g' ! 2) = 2400"
    using g'(1) by simp
  then show ?thesis using d c by (intro conjI exI [of _ g']) simp_all
qed

theorem blank_profile_counterexample:
  "effective_model [] = ''Default'' \<and>
   car_co2_lookup (Some [(''Default'', 150)]) [] = 150 \<and>
   car_co2_lookup (Some [(''Default'', 150)]) [] \<noteq> DEFAULT_CO2_GKM"
  by code_simp

subsection \<open>Estimated times\<close>

lemma foldl_mode_step:
  "foldl (mode_step g) (a, b, c) xs =
     (a + (\<Sum>(u, w) \<leftarrow> xs. car_step_min (distance_km (edges g ! (u * n g + w)))
                                          (traffic_factor (edges g ! (u * n g + w)))),
      b + (\<Sum>(u, w) \<leftarrow> xs. distance_km (edges g ! (u * n g + w)) / BIKE_KMPH * 60),
      c + (\<Sum>(u, w) \<leftarrow> xs. distance_km (edges g ! (u * n g + w)) / WALK_KMPH * 60))"
proof (induction xs arbitrary: a b c)
  case Nil
  then show ?case by simp
next
  case (Cons x xs)
  obtain u w where x: "x = (u, w)" by (cases x)
  have step: "mode_step g (a, b, c) (u, w) =
     (a + car_step_min (distance_km (edges g ! (u * n g + w))) (traffic_factor (edges g ! (u * n g + w))),
      b + distance_km (edges g ! (u * n g + w)) / BIKE_KMPH * 60,
      c + distance_km (edges g ! (u * n g + w)) / WALK_KMPH * 60)"
    by (simp add: mode_step_def Let_def)
  show ?case
    unfolding x foldl_Cons step Cons.IH by (simp add: add.assoc)
qed

lemma sum_list_scaled:
  "(\<Sum>(u, w) \<leftarrow> xs. f u w / k * 60) = (\<Sum>(u, w) \<leftarrow> xs. f u w) / k * (60::real)"
  by (induction xs) (auto simp add: add_divide_distrib distrib_right)

lemma bike_walk_times:
  "fst (snd (mode_times g path)) = route_km g path / 15 * 60 \<and>
   snd (snd (mode_times g path)) = route_km g path / 5 * 60"
  unfolding mode_times_def foldl_mode_step route_km_def sum_list_scaled BIKE_KMPH_def WALK_KMPH_def
  by simp

lemma car_step_speed:
  assumes "factor \<noteq> 0"
  shows "car_step_min d factor = d / max 5 (50 / factor) * 60"
  using assms by (simp add: car_step_min_def CAR_FREEFLOW_KMPH_def max_def Let_def)

lemma car_time_sum:
  assumes "\<forall>(u, w) \<in> set (steps path). traffic_factor (edges g ! (u * n g + w)) \<noteq> 0"
  shows "fst (mode_times g path) =
           (\<Sum>(u, w) \<leftarrow> steps path.
              distance_km (edges g ! (u * n g + w)) /
                max 5 (50 / traffic_factor (edges g ! (u * n g + w))) * 60)"
proof -
  have c: "(\<Sum>(u, w) \<leftarrow> xs. car_step_min (distance_km (edges g ! (u * n g + w)))
                                          (traffic_factor (edges g ! (u * n g + w)))) =
           (\<Sum>(u, w) \<leftarrow> xs. distance_km (edges g ! (u * n g + w)) /
                max 5 (50 / traffic_factor (edges g ! (u * n g + w))) * 60)"
    if "\<forall>(u, w) \<in> set xs. traffic_factor (edges g ! (u * n g + w)) \<noteq> 0" for xs
    using that by (induction xs) (auto simp: car_step_speed)
  show ?thesis
    unfolding mode_times_def foldl_mode_step c [OF assms] by simp
qed

lemma car_time_free_flow:
  assumes "\<forall>(u, w) \<in> set (steps path). traffic_factor (edges g ! (u * n g + w)) = 1"
  shows "fst (mode_times g path) = route_km g path / 50 * 60"
proof -
  have c: "(\<Sum>(u, w) \<leftarrow> xs. car_step_min (distance_km (edges g ! (u * n g + w)))
                                          (traffic_factor (edges g ! (u * n g + w)))) =
           (\<Sum>(u, w) \<leftarrow> xs. distance_km (edges g ! (u * n g + w)) / 50 * 60)"
    if "\<forall>(u, w) \<in> set xs. traffic_factor (edges g ! (u * n g + w)) = 1" for xs
    using that by (induction xs) (auto simp: car_step_min_def CAR_FREEFLOW_KMPH_def)
  show ?thesis
    unfolding mode_times_def foldl_mode_step route_km_def c [OF assms] sum_list_scaled
    by simp
qed

text \<open>
  C5, as the code has it.  The distance mode computes \<open>km / speed * 60\<close> with the constants
  40, 15 and 5 km/h.  The CO2 mode does so for bike and walk (15 and 5 km/h, summed over the
  steps of the path).  Its car time is the sum, over the steps of the path, of
  \<open>d / max 5 (50 / traffic_factor) * 60\<close>: the speed of a step is 50 km/h divided by the traffic
  factor of its edge, and never below 5 km/h (every step with a nonzero factor; a negative factor
  gives 5 km/h).  So it equals \<open>km / 50 * 60\<close> when every step of the path has traffic factor 1,
  and differs from it otherwise.
\<close>

theorem estimated_times:
  "eta_minutes km = (km / 40 * 60, km / 15 * 60, km / 5 * 60) \<and>
   fst (snd (mode_times g path)) = route_km g path / 15 * 60 \<and>
   snd (snd (mode_times g path)) = route_km g path / 5 * 60 \<and>
   ((\<forall>(u, w) \<in> set (steps path). traffic_factor (edges g ! (u * n g + w)) \<noteq> 0)
      \<longrightarrow> fst (mode_times g path) =
            (\<Sum>(u, w) \<leftarrow> steps path.
               distance_km (edges g ! (u * n g + w)) /
                 max 5 (50 / traffic_factor (edges g ! (u * n g + w))) * 60)) \<and>
   ((\<forall>(u, w) \<in> set (steps path). traffic_factor (edges g ! (u * n g + w)) = 1)
      \<longrightarrow> fst (mode_times g path) = route_km g path / 50 * 60)"
proof (intro conjI impI)
  show "eta_minutes km = (km / 40 * 60, km / 15 * 60, km / 5 * 60)"
    by (simp add: eta_minutes_def compute_time_min_def CAR_KMH_def BIKE_KMH_def WALK_KMH_def)
  show "fst (snd (mode_times g path)) = route_km g path / 15 * 60"
    using bike_walk_times [of g path] by simp
  show "snd (snd (mode_times g path)) = route_km g path / 5 * 60"
    using bike_walk_times [of g path] by simp
  show "fst (mode_times g path) =
            (\<Sum>(u, w) \<leftarrow> steps path.
               distance_km (edges g ! (u * n g + w)) /
                 max 5 (50 / traffic_factor (edges g ! (u * n g + w))) * 60)"
    if "\<forall>(u, w) \<in> set (steps path). traffic_factor (edges g ! (u * n g + w)) \<noteq> 0"
    using that by (rule car_time_sum)
  show "fst (mode_times g path) = route_km g path / 50 * 60"
    if "\<forall>(u, w) \<in> set (steps path). traffic_factor (edges g ! (u * n g + w)) = 1"
    using that by (rule car_time_free_flow)
qed

theorem estimated_times_witness:
  "steps [0, 1] = [(0, 1)] \<and>
   traffic_factor (edges (two_city_graph 10 1) ! (0 * n (two_city_graph 10 1) + 1)) = 1 \<and>
   mode_times (two_city_graph 10 1) [0, 1] = (12, 40, 120) \<and>
   route_km (two_city_graph 10 1) [0, 1] = 10 \<and>
   traffic_factor (edges (two_city_graph 10 2) ! (0 * n (two_city_graph 10 2) + 1)) = 2 \<and>
   fst (mode_times (two_city_graph 10 2) [0, 1]) = 24 \<and>
   traffic_factor (edges (two_city_graph 10 20) ! (0 * n (two_city_graph 10 20) + 1)) = 20 \<and>
   fst (mode_times (two_city_graph 10 20) [0, 1]) = 120"
proof -
  let ?g = "two_city_graph 10 1"
  have h: "\<forall>(u, w) \<in> set (steps [0, 1]). traffic_factor (edges ?g ! (u * n ?g + w)) = 1"
    by (simp add: steps_def two_city_graph_def)
  have r: "route_km ?g [0, 1] = 10"
    by (simp add: route_km_def steps_def two_city_graph_def)
  note t = estimated_times [of 10 ?g "[0, 1]"]
  note t2 = t [THEN conjunct2, THEN conjunct1]
  note t3 = t [THEN conjunct2, THEN conjunct2, THEN conjunct1]
  note t5 = t [THEN conjunct2, THEN conjunct2, THEN conjunct2, THEN conjunct2, THEN mp]
  have a: "fst (mode_times ?g [0, 1]) = 12" using t5 [OF h] r by simp
  have b: "fst (snd (mode_times ?g [0, 1])) = 40" using t2 r by simp
  have c: "snd (snd (mode_times ?g [0, 1])) = 120" using t3 r by simp
  have m: "mode_times ?g [0, 1] = (12, 40, 120)"
    using a b c by (simp add: prod_eq_iff)
  have s: "steps [0, 1] = [(0, 1)]" by (simp add: steps_def)
  have f1: "traffic_factor (edges ?g ! (0 * n ?g + 1)) = 1" by (simp add: two_city_graph_def)
  have car: "fst (mode_times (two_city_graph 10 tf) [0, 1]) = 10 / max 5 (50 / tf) * 60"
    if "tf \<noteq> 0" for tf
  proof -
    let ?h = "two_city_graph 10 tf"
    have nz: "\<forall>(u, w) \<in> set (steps [0, 1]). traffic_factor (edges ?h ! (u * n ?h + w)) \<noteq> 0"
      using that by (simp add: steps_def two_city_graph_def)
    note u = estimated_times [of 10 ?h "[0, 1]"]
    note u4 = u [THEN conjunct2, THEN conjunct2, THEN conjunct2, THEN conjunct1, THEN mp]
    show ?thesis using u4 [OF nz] by (simp add: steps_def two_city_graph_def)
  qed
  have f2: "traffic_factor (edges (two_city_graph 10 2) ! (0 * n (two_city_graph 10 2) + 1)) = 2"
    by (simp add: two_city_graph_def)
  have f20: "traffic_factor (edges (two_city_graph 10 20) ! (0 * n (two_city_graph 10 20) + 1)) = 20"
    by (simp add: two_city_graph_def)
  have c2: "fst (mode_times (two_city_graph 10 2) [0, 1]) = 24" using car [of 2] by simp
  have c20: "fst (mode_times (two_city_graph 10 20) [0, 1]) = 120" using car [of 20] by simp
  show ?thesis using s f1 m r f2 c2 f20 c20 by (intro conjI)
qed

theorem car_time_counterexample:
  "fst (mode_times (two_city_graph 10 2) [0, 1]) = 24 \<and>
   route_km (two_city_graph 10 2) [0, 1] / CAR_FREEFLOW_KMPH * 60 = 12"
  by (simp add: mode_times_def route_km_def steps_def mode_step_def two_city_graph_def
      car_step_min_def CAR_FREEFLOW_KMPH_def BIKE_KMPH_def WALK_KMPH_def Let_def)


section \<open>carbon.c: a route from a city to itself\<close>

lemma scan_init_fold:
  "fold (scan_step (init_nodes src)) [0..<k] (- 1, INF_val) =
     (if src < k then (int src, 0) else (- 1, INF_val))"
proof (induction k)
  case 0
  then show ?case by simp
next
  case (Suc k)
  then show ?case
    by (auto simp: scan_step_def init_nodes_def INF_val_def)
qed

lemma scan_min_init: "src < k \<Longrightarrow> scan_min k (init_nodes src) = int src"
  by (simp add: scan_min_def scan_init_fold)

lemma walk_prev_end: "walk_prev room nodes (- 1) = []"
  by (cases room) simp_all

lemma walk_prev_single:
  assumes "0 < room" "cur \<noteq> - 1" "nd_prev (nodes (nat cur)) = - 1"
  shows "walk_prev room nodes cur = [nat cur]"
  using assms by (cases room) (simp_all add: walk_prev_end)

lemma dijkstra_same: 
  assumes "src < n g"
  shows "dijkstra g src src = Some ([src], 0)"
proof -
  have l: "dijkstra_loop g src (init_nodes src) = init_nodes src"
    using assms by (subst dijkstra_loop.simps) (simp add: scan_min_init Let_def)
  have w': "walk_prev 1024 (init_nodes src) (int src) = [src]"
    using walk_prev_single [of 1024 "int src" "init_nodes src"] by (simp add: init_nodes_def)
  show ?thesis
    by (simp add: dijkstra_def l w' Let_def) (simp add: init_nodes_def INF_val_def)
qed

section \<open>carbon.c: polyline simplification\<close>

text \<open>A point of the polyline (the \<^verbatim>\<open>Pt\<close> of \<^verbatim>\<open>carbon.c\<close>).\<close>

record Pt =
  lat :: real
  lon :: real

text \<open>
  Squared distance from the point \<open>c\<close> to the segment \<open>ab\<close>, in exact arithmetic.  The C function
  computes in doubles, and every operation of it rounds: its result is this value only where
  no operation rounds, as on the points with small integer coordinates of the examples below.
\<close>

definition seg_point_dist2 :: "Pt \<Rightarrow> Pt \<Rightarrow> Pt \<Rightarrow> real" where
  "seg_point_dist2 a b c =
     (let vx = lon b - lon a;
          vy = lat b - lat a;
          wx = lon c - lon a;
          wy = lat c - lat a;
          vv = vx * vx + vy * vy
      in if vv = 0
         then (let dx = lon c - lon a; dy = lat c - lat a in dx * dx + dy * dy)
         else (let t0 = (vx * wx + vy * wy) / vv;
                   t = (if t0 < 0 then 0 else if t0 > 1 then 1 else t0);
                   px = lon a + t * vx;
                   py = lat a + t * vy;
                   dx = lon c - px;
                   dy = lat c - py
               in dx * dx + dy * dy))"

text \<open>
  With tolerance 0 the simplification keeps a point exactly when the double that
  \<^verbatim>\<open>seg_point_dist2\<close> returns is positive, so the rounding decides and exact arithmetic is not a
  model of it.  The loop is therefore modelled over the values that the machine computes:
  \<open>dist2 a b c\<close> stands for the double that \<^verbatim>\<open>seg_point_dist2(a, b, c)\<close> returns and \<open>sq eps\<close> for the
  double product \<^verbatim>\<open>eps*eps\<close> (which is 0 for \<open>eps = 0\<close>, and also for every tolerance so small that
  the product underflows).  Not-a-number values are outside the model.

  The scan for the interior point of the span \<open>(i, j)\<close> that is farthest from the chord:
  \<^verbatim>\<open>bestd2\<close> starts at \<open>-1\<close> and \<^verbatim>\<open>bestk\<close> at \<open>-1\<close>.
\<close>

definition far_step ::
    "(Pt \<Rightarrow> Pt \<Rightarrow> Pt \<Rightarrow> real) \<Rightarrow> Pt list \<Rightarrow> nat \<Rightarrow> nat \<Rightarrow> nat \<Rightarrow> real \<times> int \<Rightarrow> real \<times> int" where
  "far_step dist2 pts i j k best =
     (let d2 = dist2 (pts ! i) (pts ! j) (pts ! k) in
      if d2 > fst best then (d2, int k) else best)"

definition farthest :: "(Pt \<Rightarrow> Pt \<Rightarrow> Pt \<Rightarrow> real) \<Rightarrow> Pt list \<Rightarrow> nat \<Rightarrow> nat \<Rightarrow> real \<times> int" where
  "farthest dist2 pts i j = fold (far_step dist2 pts i j) [i + 1..<j] (- 1, - 1)"

text \<open>A termination measure for the stack of spans: a split replaces a span by two shorter ones.\<close>

definition span_weight :: "nat \<times> nat \<Rightarrow> nat" where
  "span_weight s = max 1 (2 * (snd s - fst s) - 1)"

definition stack_weight :: "(nat \<times> nat) list \<Rightarrow> nat" where
  "stack_weight st = sum_list (map span_weight st)"

lemma far_fold:
  assumes "\<forall>k \<in> set ks. i < k \<and> k < j"
      and "(snd b = - 1 \<and> fst b = - 1) \<or> (int i < snd b \<and> snd b < int j \<and> fst b = dist2 (pts ! i) (pts ! j) (pts ! nat (snd b)))"
  shows "((snd (fold (far_step dist2 pts i j) ks b) = - 1 \<and> fst (fold (far_step dist2 pts i j) ks b) = - 1) \<or>
          (int i < snd (fold (far_step dist2 pts i j) ks b) \<and> snd (fold (far_step dist2 pts i j) ks b) < int j \<and>
           fst (fold (far_step dist2 pts i j) ks b) =
             dist2 (pts ! i) (pts ! j) (pts ! nat (snd (fold (far_step dist2 pts i j) ks b))))) \<and>
         fst b \<le> fst (fold (far_step dist2 pts i j) ks b) \<and>
         (\<forall>k \<in> set ks. dist2 (pts ! i) (pts ! j) (pts ! k) \<le> fst (fold (far_step dist2 pts i j) ks b))"
  using assms
proof (induction ks arbitrary: b)
  case Nil
  then show ?case by simp
next
  case (Cons k ks)
  let ?b = "far_step dist2 pts i j k b"
  have k: "i < k" "k < j" using Cons.prems(1) by simp_all
  have 1: "\<forall>k \<in> set ks. i < k \<and> k < j" using Cons.prems(1) by simp
  have 2: "(snd ?b = - 1 \<and> fst ?b = - 1) \<or> (int i < snd ?b \<and> snd ?b < int j \<and>
            fst ?b = dist2 (pts ! i) (pts ! j) (pts ! nat (snd ?b)))"
    using Cons.prems(2) k by (auto simp: far_step_def Let_def)
  have 3: "fst b \<le> fst ?b" "dist2 (pts ! i) (pts ! j) (pts ! k) \<le> fst ?b"
    by (auto simp: far_step_def Let_def)
  from Cons.IH [OF 1 2] 3 show ?case by fastforce
qed

lemma farthest_props:
  shows "(snd (farthest dist2 pts i j) = - 1 \<and> fst (farthest dist2 pts i j) = - 1) \<or>
          (int i < snd (farthest dist2 pts i j) \<and> snd (farthest dist2 pts i j) < int j \<and>
           fst (farthest dist2 pts i j) =
             dist2 (pts ! i) (pts ! j) (pts ! nat (snd (farthest dist2 pts i j))))"
    and "\<forall>k. i < k \<and> k < j \<longrightarrow> dist2 (pts ! i) (pts ! j) (pts ! k) \<le> fst (farthest dist2 pts i j)"
  using far_fold [of "[i + 1..<j]" i j "(- 1, - 1)" dist2 pts] by (auto simp: farthest_def)

lemma farthest_inside:
  assumes "0 \<le> snd (farthest dist2 pts i j)"
  shows "i < nat (snd (farthest dist2 pts i j))" "nat (snd (farthest dist2 pts i j)) < j"
    "fst (farthest dist2 pts i j) =
       dist2 (pts ! i) (pts ! j) (pts ! nat (snd (farthest dist2 pts i j)))"
proof -
  have "snd (farthest dist2 pts i j) \<noteq> - 1" using assms by linarith
  then have *: "int i < snd (farthest dist2 pts i j) \<and> snd (farthest dist2 pts i j) < int j \<and>
           fst (farthest dist2 pts i j) =
             dist2 (pts ! i) (pts ! j) (pts ! nat (snd (farthest dist2 pts i j)))"
    using farthest_props(1) [of dist2 pts i j] by blast
  from * show "i < nat (snd (farthest dist2 pts i j))" "nat (snd (farthest dist2 pts i j)) < j"
    by linarith+
  from * show "fst (farthest dist2 pts i j) =
       dist2 (pts ! i) (pts ! j) (pts ! nat (snd (farthest dist2 pts i j)))" by simp
qed

lemma farthest_found:
  assumes "0 \<le> eps2" "eps2 < fst (farthest dist2 pts i j)"
  shows "0 \<le> snd (farthest dist2 pts i j)"
proof -
  have "fst (farthest dist2 pts i j) \<noteq> - 1" using assms by linarith
  then show ?thesis using farthest_props(1) [of dist2 pts i j] by linarith
qed

lemma span_split: 
  assumes "i < k" "k < j"
  shows "span_weight (k, j) + span_weight (i, k) < span_weight (i, j)"
  using assms unfolding span_weight_def max_def fst_conv snd_conv by (auto; linarith)

text \<open>
  The loop of \<^verbatim>\<open>rdp_simplify\<close>, with \<open>eps2\<close> the value of \<^verbatim>\<open>eps*eps\<close>.  The result \<open>None\<close> is a write
  outside an array.  The C stack holds two integers per span and has room for \<open>cap = n + 5\<close>
  integers; after the pop, a split pushes four integers, which may go beyond the end of the
  stack.  (\<^verbatim>\<open>keep[bestk]\<close> with \<^verbatim>\<open>bestk = -1\<close> needs a span without interior point to pass the test,
  which a product \<^verbatim>\<open>eps*eps\<close>, never negative, excludes.)
\<close>

function rdp_loop ::
    "(Pt \<Rightarrow> Pt \<Rightarrow> Pt \<Rightarrow> real) \<Rightarrow> Pt list \<Rightarrow> real \<Rightarrow> nat \<Rightarrow> (nat \<times> nat) list \<Rightarrow> bool list
       \<Rightarrow> bool list option" where
  "rdp_loop dist2 pts eps2 cap [] keep = Some keep"
| "rdp_loop dist2 pts eps2 cap ((i, j) # stack) keep =
     (let best = farthest dist2 pts i j; bestd2 = fst best; bestk = snd best in
      if bestd2 > eps2
      then (if bestk < 0 then None
            else if 2 * length stack + 4 > cap then None
            else rdp_loop dist2 pts eps2 cap ((nat bestk, j) # (i, nat bestk) # stack)
                   (keep[nat bestk := True]))
      else rdp_loop dist2 pts eps2 cap stack keep)"
  by pat_completeness auto
termination
proof (relation "measure (\<lambda>(dist2, pts, eps2, cap, stack, keep). stack_weight stack)")
  show "wf (measure (\<lambda>(dist2, pts, eps2, cap, stack, keep). stack_weight stack))" by simp
next
  fix dist2 :: "Pt \<Rightarrow> Pt \<Rightarrow> Pt \<Rightarrow> real" and pts :: "Pt list" and eps2 :: real and cap i j :: nat
    and stack :: "(nat \<times> nat) list" and keep :: "bool list" and best bestd2 bestk
  assume b: "best = farthest dist2 pts i j" "bestd2 = fst best" "bestk = snd best"
    and ge: "\<not> bestk < 0"
  have "i < nat bestk" "nat bestk < j"
    using farthest_inside(1,2) [of dist2 pts i j] b ge by simp_all
  then show "((dist2, pts, eps2, cap, (nat bestk, j) # (i, nat bestk) # stack, keep[nat bestk := True]),
              dist2, pts, eps2, cap, (i, j) # stack, keep)
             \<in> measure (\<lambda>(dist2, pts, eps2, cap, stack, keep). stack_weight stack)"
    using span_split [of i "nat bestk" j] by (simp add: stack_weight_def)
next
  fix dist2 :: "Pt \<Rightarrow> Pt \<Rightarrow> Pt \<Rightarrow> real" and pts :: "Pt list" and eps2 :: real and cap i j :: nat
    and stack :: "(nat \<times> nat) list" and keep :: "bool list" and best bestd2 bestk
  show "((dist2, pts, eps2, cap, stack, keep), dist2, pts, eps2, cap, (i, j) # stack, keep)
             \<in> measure (\<lambda>(dist2, pts, eps2, cap, stack, keep). stack_weight stack)"
    by (simp add: stack_weight_def span_weight_def)
qed

declare rdp_loop.simps [simp del]

text \<open>
  \<^verbatim>\<open>rdp_simplify(pts, n, eps, out, out_max)\<close> with \<open>n = length pts\<close>; the result is the content of
  \<^verbatim>\<open>out\<close>, and the returned count is its length.
\<close>

definition rdp_simplify ::
    "(Pt \<Rightarrow> Pt \<Rightarrow> Pt \<Rightarrow> real) \<Rightarrow> (real \<Rightarrow> real) \<Rightarrow> Pt list \<Rightarrow> real \<Rightarrow> nat \<Rightarrow> Pt list option" where
  "rdp_simplify dist2 sq pts eps out_max =
     (let k = length pts in
      if k = 0 \<or> out_max = 0 then Some []
      else if k = 1 then Some [pts ! 0]
      else (case rdp_loop dist2 pts (sq eps) (k + 5) [(0, k - 1)]
                   ((replicate k False)[0 := True, k - 1 := True]) of
              None \<Rightarrow> None
            | Some keep \<Rightarrow> Some (take out_max (map (\<lambda>i. pts ! i) (filter (\<lambda>i. keep ! i) [0..<k])))))"


subsection \<open>What the simplification keeps\<close>

text \<open>Two kept indices with no kept index between them.\<close>

definition kept_pair :: "bool list \<Rightarrow> nat \<Rightarrow> nat \<Rightarrow> bool" where
  "kept_pair keep i j \<longleftrightarrow>
     i < j \<and> j < length keep \<and> keep ! i \<and> keep ! j \<and> (\<forall>m. i < m \<and> m < j \<longrightarrow> \<not> keep ! m)"

definition within_eps :: "(Pt \<Rightarrow> Pt \<Rightarrow> Pt \<Rightarrow> real) \<Rightarrow> Pt list \<Rightarrow> real \<Rightarrow> nat \<Rightarrow> nat \<Rightarrow> bool" where
  "within_eps dist2 pts eps2 i j \<longleftrightarrow>
     (\<forall>k. i < k \<and> k < j \<longrightarrow> dist2 (pts ! i) (pts ! j) (pts ! k) \<le> eps2)"

text \<open>
  Why an interior point is kept: it was the farthest point of a span between two kept points,
  and farther from the chord than the tolerance.
\<close>

definition split_point :: "(Pt \<Rightarrow> Pt \<Rightarrow> Pt \<Rightarrow> real) \<Rightarrow> Pt list \<Rightarrow> real \<Rightarrow> bool list \<Rightarrow> nat \<Rightarrow> bool" where
  "split_point dist2 pts eps2 keep m \<longleftrightarrow>
     (\<exists>i j. i < m \<and> m < j \<and> j < length keep \<and> keep ! i \<and> keep ! j \<and>
            eps2 < dist2 (pts ! i) (pts ! j) (pts ! m) \<and>
            (\<forall>k. i < k \<and> k < j \<longrightarrow>
               dist2 (pts ! i) (pts ! j) (pts ! k) \<le> dist2 (pts ! i) (pts ! j) (pts ! m)))"

definition rdp_inv ::
    "(Pt \<Rightarrow> Pt \<Rightarrow> Pt \<Rightarrow> real) \<Rightarrow> Pt list \<Rightarrow> real \<Rightarrow> (nat \<times> nat) list \<Rightarrow> bool list \<Rightarrow> bool" where
  "rdp_inv dist2 pts eps2 stack keep \<longleftrightarrow>
     distinct stack \<and> (\<forall>(i, j) \<in> set stack. kept_pair keep i j) \<and>
     (\<forall>i j. kept_pair keep i j \<longrightarrow> (i, j) \<in> set stack \<or> within_eps dist2 pts eps2 i j)"

definition kept_inv :: "(Pt \<Rightarrow> Pt \<Rightarrow> Pt \<Rightarrow> real) \<Rightarrow> Pt list \<Rightarrow> real \<Rightarrow> bool list \<Rightarrow> bool" where
  "kept_inv dist2 pts eps2 keep \<longleftrightarrow>
     (\<forall>m < length keep. keep ! m \<longrightarrow>
        m = 0 \<or> m = length keep - 1 \<or> split_point dist2 pts eps2 keep m)"

text \<open>The number of points that are not kept.\<close>

definition dropped :: "bool list \<Rightarrow> nat" where
  "dropped keep = length (filter Not keep)"

lemma kept_pair_same:
  assumes "kept_pair keep i j" "kept_pair keep a b" "a < k" "k < b" "i < k" "k < j"
  shows "a = i \<and> b = j"
proof -
  have "\<not> (a < i)" using assms unfolding kept_pair_def by (metis less_trans)
  moreover have "\<not> (i < a)" using assms unfolding kept_pair_def by (metis less_trans)
  moreover have "\<not> (b < j)" using assms unfolding kept_pair_def by (metis less_trans)
  moreover have "\<not> (j < b)" using assms unfolding kept_pair_def by (metis less_trans)
  ultimately show ?thesis by simp
qed


lemma rdp_inv_pop:
  assumes inv: "rdp_inv dist2 pts eps2 ((i, j) # stack) keep"
      and le: "\<not> fst (farthest dist2 pts i j) > eps2"
  shows "rdp_inv dist2 pts eps2 stack keep"
proof -
  have w: "within_eps dist2 pts eps2 i j"
    unfolding within_eps_def using farthest_props(2) [of i j dist2 pts] le by fastforce
  show ?thesis
    using inv w unfolding rdp_inv_def by auto
qed

lemma rdp_inv_split:
  assumes inv: "rdp_inv dist2 pts eps2 ((i, j) # stack) keep"
      and k: "i < k" "k < j"
  shows "rdp_inv dist2 pts eps2 ((k, j) # (i, k) # stack) (keep[k := True])"
proof -
  let ?keep = "keep[k := True]"
  have ij: "kept_pair keep i j" using inv by (simp add: rdp_inv_def)
  have nk: "\<not> keep ! k" using ij k by (simp add: kept_pair_def)
  have kl: "k < length keep" using ij k by (simp add: kept_pair_def)
  have rest: "kept_pair keep a b \<and> (a, b) \<noteq> (i, j)" if "(a, b) \<in> set stack" for a b
    using inv that by (auto simp: rdp_inv_def)
  have outside: "\<not> (a < k \<and> k < b)" if "(a, b) \<in> set stack" for a b
    using rest [OF that] kept_pair_same [OF ij, of a b k] k by blast
  have p1: "kept_pair ?keep k j"
    using ij k kl unfolding kept_pair_def by (auto simp: nth_list_update)
  have p2: "kept_pair ?keep i k"
    using ij k kl unfolding kept_pair_def by (auto simp: nth_list_update)
  have p3: "kept_pair ?keep a b" if "(a, b) \<in> set stack" for a b
  proof -
    have ab: "kept_pair keep a b" using rest [OF that] by simp
    have "\<not> (a < k \<and> k < b)" using outside [OF that] .
    then show ?thesis using ab kl unfolding kept_pair_def by (auto simp: nth_list_update)
  qed
  have ends: "keep ! a \<and> keep ! b" if "(a, b) \<in> set stack" for a b
    using rest [OF that] by (simp add: kept_pair_def)
  have d: "distinct ((k, j) # (i, k) # stack)"
    using inv nk k ends by (auto simp: rdp_inv_def)
  have cover: "(a, b) \<in> set ((k, j) # (i, k) # stack) \<or> within_eps dist2 pts eps2 a b"
    if ab: "kept_pair ?keep a b" for a b
  proof -
    have b: "a < b" "b < length keep" "?keep ! a" "?keep ! b" "\<forall>m. a < m \<and> m < b \<longrightarrow> \<not> ?keep ! m"
      using ab by (simp_all add: kept_pair_def)
    have nin: "\<not> (a < k \<and> k < b)" using b(5) kl by auto
    show ?thesis
    proof (cases "a = k")
      case True
      have "b = j"
      proof (rule ccontr)
        assume "b \<noteq> j"
        then consider "b < j" | "j < b" by linarith
        then show False
        proof cases
          case 1
          then have "\<not> keep ! b" using ij True b(1) k by (simp add: kept_pair_def)
          then show False using b(4) b(2) True b(1) by (simp add: nth_list_update)
        next
          case 2
          have "?keep ! j" using ij kl by (simp add: kept_pair_def nth_list_update)
          then show False using b(5) 2 True k by auto
        qed
      qed
      then show ?thesis using True by simp
    next
      case False
      show ?thesis
      proof (cases "b = k")
        case True
        have "a = i"
        proof (rule ccontr)
          assume "a \<noteq> i"
          then consider "a < i" | "i < a" by linarith
          then show False
          proof cases
            case 1
            have "?keep ! i" using ij kl by (simp add: kept_pair_def nth_list_update)
            then show False using b(5) 1 True k by auto
          next
            case 2
            then have "\<not> keep ! a" using ij True b(1) k by (simp add: kept_pair_def)
            then show False using b(3) b(1,2) True by (simp add: nth_list_update)
          qed
        qed
        then show ?thesis using True by simp
      next
        case bk: False
        have "kept_pair keep a b"
          using b False bk nin kl unfolding kept_pair_def
          by (auto simp: nth_list_update split: if_splits)
        then have "(a, b) \<in> set ((i, j) # stack) \<or> within_eps dist2 pts eps2 a b"
          using inv by (simp add: rdp_inv_def)
        moreover have "(a, b) \<noteq> (i, j)" using nin k by auto
        ultimately show ?thesis by auto
      qed
    qed
  qed
  show ?thesis
    unfolding rdp_inv_def using d p1 p2 p3 cover by auto
qed


lemma split_point_mono:
  assumes "split_point dist2 pts eps2 keep m" "length keep' = length keep"
      and "\<forall>a < length keep. keep ! a \<longrightarrow> keep' ! a"
  shows "split_point dist2 pts eps2 keep' m"
proof -
  from assms(1) obtain i j where
    ij: "i < m" "m < j" "j < length keep" "keep ! i" "keep ! j"
      "eps2 < dist2 (pts ! i) (pts ! j) (pts ! m)"
      "\<forall>k. i < k \<and> k < j \<longrightarrow> dist2 (pts ! i) (pts ! j) (pts ! k) \<le> dist2 (pts ! i) (pts ! j) (pts ! m)"
    unfolding split_point_def by blast
  have "keep' ! i" "keep' ! j" using assms(3) ij by simp_all
  then show ?thesis unfolding split_point_def assms(2) using ij by blast
qed

lemma kept_inv_split:
  assumes inv: "kept_inv dist2 pts eps2 keep"
      and ij: "kept_pair keep i j"
      and far: "0 \<le> snd (farthest dist2 pts i j)" "eps2 < fst (farthest dist2 pts i j)"
  shows "kept_inv dist2 pts eps2 (keep[nat (snd (farthest dist2 pts i j)) := True])"
proof -
  let ?k = "nat (snd (farthest dist2 pts i j))"
  let ?keep = "keep[?k := True]"
  have k: "i < ?k" "?k < j" "fst (farthest dist2 pts i j) = dist2 (pts ! i) (pts ! j) (pts ! ?k)"
    using farthest_inside [OF far(1)] by simp_all
  have b: "j < length keep" "keep ! i" "keep ! j" using ij by (simp_all add: kept_pair_def)
  have len: "length ?keep = length keep" by simp
  have mono: "\<forall>a < length keep. keep ! a \<longrightarrow> ?keep ! a"
    by (cases "?k < length keep") (simp_all add: nth_list_update)
  have new: "split_point dist2 pts eps2 keep ?k"
    unfolding split_point_def
    using k b far(2) farthest_props(2) [of i j dist2 pts] by (intro exI [of _ i] exI [of _ j]) simp
  show ?thesis
    unfolding kept_inv_def len
  proof (intro allI impI)
    fix m assume m: "m < length keep" "?keep ! m"
    show "m = 0 \<or> m = length keep - 1 \<or> split_point dist2 pts eps2 ?keep m"
    proof (cases "m = ?k")
      case True
      then show ?thesis using split_point_mono [OF new len mono] by simp
    next
      case False
      then have "keep ! m" using m by (simp add: nth_list_update split: if_splits)
      then have "m = 0 \<or> m = length keep - 1 \<or> split_point dist2 pts eps2 keep m"
        using inv m(1) unfolding kept_inv_def by blast
      then show ?thesis using split_point_mono [OF _ len mono] by blast
    qed
  qed
qed

lemma rdp_loop_result:
  assumes "rdp_inv dist2 pts eps2 stack keep" "kept_inv dist2 pts eps2 keep"
      and "rdp_loop dist2 pts eps2 cap stack keep = Some keep'"
  shows "length keep' = length keep \<and> (\<forall>m < length keep. keep ! m \<longrightarrow> keep' ! m) \<and>
         (\<forall>i j. kept_pair keep' i j \<longrightarrow> within_eps dist2 pts eps2 i j) \<and>
         kept_inv dist2 pts eps2 keep'"
  using assms
proof (induction dist2 pts eps2 cap stack keep rule: rdp_loop.induct)
  case (1 dist2 pts eps2 cap keep)
  then show ?case by (auto simp: rdp_loop.simps rdp_inv_def)
next
  case (2 dist2 pts eps2 cap i j stack keep)
  let ?b = "snd (farthest dist2 pts i j)"
  let ?k = "nat ?b"
  have unf: "rdp_loop dist2 pts eps2 cap ((i, j) # stack) keep =
     (if fst (farthest dist2 pts i j) > eps2
      then (if ?b < 0 then None
            else if 2 * length stack + 4 > cap then None
            else rdp_loop dist2 pts eps2 cap ((?k, j) # (i, ?k) # stack) (keep[?k := True]))
      else rdp_loop dist2 pts eps2 cap stack keep)"
    by (subst rdp_loop.simps(2)) (simp add: Let_def)
  show ?case
  proof (cases "fst (farthest dist2 pts i j) > eps2")
    case True
    have run: "\<not> ?b < 0" "\<not> 2 * length stack + 4 > cap"
      "rdp_loop dist2 pts eps2 cap ((?k, j) # (i, ?k) # stack) (keep[?k := True]) = Some keep'"
      using "2.prems"(3) True unfolding unf by (auto split: if_splits)
    have b0: "0 \<le> ?b" using run(1) by simp
    have k: "i < ?k" "?k < j" using farthest_inside(1,2) [OF b0] by simp_all
    have ij: "kept_pair keep i j" using "2.prems"(1) by (simp add: rdp_inv_def)
    have inv': "rdp_inv dist2 pts eps2 ((?k, j) # (i, ?k) # stack) (keep[?k := True])"
      using rdp_inv_split [OF "2.prems"(1) k] .
    have kinv': "kept_inv dist2 pts eps2 (keep[?k := True])"
      using kept_inv_split [OF "2.prems"(2) ij b0 True] .
    have ih: "length keep' = length (keep[?k := True]) \<and>
              (\<forall>m < length (keep[?k := True]). keep[?k := True] ! m \<longrightarrow> keep' ! m) \<and>
              (\<forall>i j. kept_pair keep' i j \<longrightarrow> within_eps dist2 pts eps2 i j) \<and>
              kept_inv dist2 pts eps2 keep'"
      using "2.IH"(1) [OF refl refl refl True run(1) run(2) inv' kinv' run(3)] .
    have "keep' ! m" if "m < length keep" "keep ! m" for m
    proof -
      have "keep[?k := True] ! m" using that
        by (cases "?k < length keep") (simp_all add: nth_list_update)
      then show ?thesis using ih that(1) by simp
    qed
    then show ?thesis using ih by simp
  next
    case False
    have run: "rdp_loop dist2 pts eps2 cap stack keep = Some keep'"
      using "2.prems"(3) False unfolding unf by simp
    have inv': "rdp_inv dist2 pts eps2 stack keep" using rdp_inv_pop [OF "2.prems"(1) False] .
    show ?thesis using "2.IH"(2) [OF refl refl refl False inv' "2.prems"(2) run] .
  qed
qed

lemma rdp_inv_init:
  assumes "2 \<le> k"
  shows "rdp_inv dist2 pts eps2 [(0, k - 1)] ((replicate k False)[0 := True, k - 1 := True])"
proof -
  let ?keep = "(replicate k False)[0 := True, k - 1 := True]"
  have nth: "?keep ! m = (m = 0 \<or> m = k - 1)" if "m < k" for m
    using that assms by (auto simp: nth_list_update)
  have len: "length ?keep = k" by simp
  have p: "kept_pair ?keep 0 (k - 1)"
    unfolding kept_pair_def len using assms nth by auto
  have "a = 0 \<and> b = k - 1" if "kept_pair ?keep a b" for a b
  proof -
    from that have ab: "a < b" "b < k" "?keep ! a" "?keep ! b"
      unfolding kept_pair_def len by blast+
    have "a < k" using ab by simp
    then have "a = 0 \<or> a = k - 1" using nth [of a] ab(3) by blast
    moreover have "b = 0 \<or> b = k - 1" using nth [of b] ab(2,4) by blast
    ultimately show ?thesis using ab(1,2) by linarith
  qed
  then show ?thesis unfolding rdp_inv_def using p by auto
qed


lemma kept_inv_init:
  "kept_inv dist2 pts eps2 ((replicate k False)[0 := True, k - 1 := True])"
  unfolding kept_inv_def by (auto simp: nth_list_update split: if_splits)

lemma enclosing_pair:
  assumes "keep ! 0" "keep ! (length keep - 1)" "k < length keep" "\<not> keep ! k"
  shows "\<exists>i j. i < k \<and> k < j \<and> kept_pair keep i j"
proof -
  define j where "j = (LEAST m. k < m \<and> keep ! m)"
  have k0: "k \<noteq> 0" "k \<noteq> length keep - 1" using assms by (cases "k = 0"; auto)+
  have ex: "k < length keep - 1 \<and> keep ! (length keep - 1)" using assms k0 by auto
  have j: "k < j \<and> keep ! j" unfolding j_def by (rule LeastI [of _ "length keep - 1"]) (rule ex)
  have jle: "j \<le> length keep - 1" unfolding j_def by (rule Least_le) (rule ex)
  have jmin: "\<not> (k < m \<and> keep ! m)" if "m < j" for m
    using that not_less_Least unfolding j_def by blast
  define i where "i = (GREATEST m. m < k \<and> keep ! m)"
  have ex0: "0 < k \<and> keep ! 0" using assms k0 by auto
  have bnd: "\<forall>y. y < k \<and> keep ! y \<longrightarrow> y \<le> k" by simp
  have i: "i < k \<and> keep ! i" unfolding i_def by (rule GreatestI_nat [of _ 0 k]) (use ex0 bnd in auto)
  have imax: "\<not> (m < k \<and> keep ! m)" if "i < m" for m
  proof
    assume m: "m < k \<and> keep ! m"
    have "m \<le> i" unfolding i_def by (rule Greatest_le_nat [of _ m k]) (use m bnd in auto)
    with that show False by simp
  qed
  have "kept_pair keep i j"
    unfolding kept_pair_def
  proof (intro conjI allI impI)
    show "i < j" using i j by simp
    show "j < length keep" using jle assms(3) by simp
    show "keep ! i" using i by simp
    show "keep ! j" using j by simp
    fix m assume m: "i < m \<and> m < j"
    show "\<not> keep ! m"
    proof (cases "m < k")
      case True
      then show ?thesis using imax m by blast
    next
      case False
      then have "m = k \<or> k < m" by linarith
      then show ?thesis using assms(4) jmin m by blast
    qed
  qed
  then show ?thesis using i j by blast
qed

lemma take_all_filter: "length xs \<le> k \<Longrightarrow> take k (map f (filter P xs)) = map f (filter P xs)"
proof -
  assume "length xs \<le> k"
  moreover have "length (filter P xs) \<le> length xs" by (rule length_filter_le)
  ultimately have "length (map f (filter P xs)) \<le> k"
    by (metis length_map order_trans)
  then show ?thesis by (rule take_all)
qed


subsection \<open>The stack of spans\<close>

text \<open>
  Every split keeps one more point and lengthens the stack by one span, so the number of spans
  on the stack plus the number of dropped points never exceeds \<open>n - 1\<close>.  With at most seven
  points the \<open>n + 5\<close> integers are enough; with eight points they need not be.
\<close>

lemma dropped_update:
  "k < length xs \<Longrightarrow> \<not> xs ! k \<Longrightarrow> Suc (dropped (xs[k := True])) = dropped xs"
  unfolding dropped_def
proof (induction xs arbitrary: k)
  case Nil
  then show ?case by simp
next
  case (Cons x xs)
  show ?case
  proof (cases k)
    case 0
    then show ?thesis using Cons.prems by simp
  next
    case (Suc k')
    then show ?thesis using Cons.prems Cons.IH [of k'] by simp
  qed
qed

lemma dropped_init:
  assumes "2 \<le> k"
  shows "Suc (dropped ((replicate k False)[0 := True, k - 1 := True])) = k - 1"
proof -
  have a: "dropped (replicate k False) = k" by (simp add: dropped_def)
  have b: "Suc (dropped ((replicate k False)[0 := True])) = k"
    using dropped_update [of 0 "replicate k False"] assms a by simp
  have "Suc (dropped ((replicate k False)[0 := True, k - 1 := True])) =
        dropped ((replicate k False)[0 := True])"
    using assms by (intro dropped_update) (simp_all add: nth_list_update)
  then show ?thesis using b by simp
qed

lemma rdp_loop_total:
  assumes "rdp_inv dist2 pts eps2 stack keep"
      and "length stack + dropped keep \<le> length keep - 1"
      and "length keep \<le> 7" "cap = length keep + 5" "0 \<le> eps2"
  shows "rdp_loop dist2 pts eps2 cap stack keep \<noteq> None"
  using assms
proof (induction dist2 pts eps2 cap stack keep rule: rdp_loop.induct)
  case (1 dist2 pts eps2 cap keep)
  then show ?case by (simp add: rdp_loop.simps)
next
  case (2 dist2 pts eps2 cap i j stack keep)
  let ?b = "snd (farthest dist2 pts i j)"
  let ?k = "nat ?b"
  have unf: "rdp_loop dist2 pts eps2 cap ((i, j) # stack) keep =
     (if fst (farthest dist2 pts i j) > eps2
      then (if ?b < 0 then None
            else if 2 * length stack + 4 > cap then None
            else rdp_loop dist2 pts eps2 cap ((?k, j) # (i, ?k) # stack) (keep[?k := True]))
      else rdp_loop dist2 pts eps2 cap stack keep)"
    by (subst rdp_loop.simps(2)) (simp add: Let_def)
  show ?case
  proof (cases "fst (farthest dist2 pts i j) > eps2")
    case True
    have b0: "0 \<le> ?b" using farthest_found [OF "2.prems"(5) True] .
    have nb: "\<not> ?b < 0" using b0 by simp
    have k: "i < ?k" "?k < j" using farthest_inside(1,2) [OF b0] by simp_all
    have ij: "kept_pair keep i j" using "2.prems"(1) by (simp add: rdp_inv_def)
    have kl: "?k < length keep" and nk: "\<not> keep ! ?k"
      using ij k by (simp_all add: kept_pair_def)
    have d: "Suc (dropped (keep[?k := True])) = dropped keep"
      using dropped_update [OF kl nk] .
    have room: "\<not> 2 * length stack + 4 > cap"
      using "2.prems"(2,3,4) d by simp
    have inv': "rdp_inv dist2 pts eps2 ((?k, j) # (i, ?k) # stack) (keep[?k := True])"
      using rdp_inv_split [OF "2.prems"(1) k] .
    have bound: "length ((?k, j) # (i, ?k) # stack) + dropped (keep[?k := True])
                   \<le> length (keep[?k := True]) - 1"
      using "2.prems"(2) d by simp
    have "rdp_loop dist2 pts eps2 cap ((?k, j) # (i, ?k) # stack) (keep[?k := True]) \<noteq> None"
      using "2.IH"(1) [OF refl refl refl True nb room inv' bound] "2.prems"(3,4,5) by simp
    then show ?thesis unfolding unf using True nb room by simp
  next
    case False
    have inv': "rdp_inv dist2 pts eps2 stack keep" using rdp_inv_pop [OF "2.prems"(1) False] .
    have "rdp_loop dist2 pts eps2 cap stack keep \<noteq> None"
      using "2.IH"(2) [OF refl refl refl False inv'] "2.prems"(2,3,4,5) by simp
    then show ?thesis unfolding unf using False by simp
  qed
qed

lemma rdp_simplify_run:
  assumes k2: "2 \<le> length pts" and room: "length pts \<le> out_max"
  shows "rdp_simplify dist2 sq pts eps out_max =
           (case rdp_loop dist2 pts (sq eps) (length pts + 5) [(0, length pts - 1)]
                   ((replicate (length pts) False)[0 := True, length pts - 1 := True]) of
              None \<Rightarrow> None
            | Some keep \<Rightarrow> Some (map (\<lambda>i. pts ! i) (filter (\<lambda>i. keep ! i) [0..<length pts])))"
proof -
  have t: "take out_max (map (\<lambda>i. pts ! i) (filter (\<lambda>i. keep ! i) [0..<length pts])) =
           map (\<lambda>i. pts ! i) (filter (\<lambda>i. keep ! i) [0..<length pts])" for keep :: "bool list"
    using room by (intro take_all_filter) simp
  have "length pts \<noteq> 0" "length pts \<noteq> 1" "out_max \<noteq> 0" using k2 room by linarith+
  then show ?thesis
    unfolding rdp_simplify_def Let_def t by (simp split: option.splits)
qed

text \<open>
  An input of eight points on which the stack overruns: every split is at the point next to
  the left end of the span, so the spans pile up, and the sixth split pushes the integers 11 to
  14 onto a stack of 13.  The coordinates are powers of two, so that no operation of
  \<^verbatim>\<open>seg_point_dist2\<close> rounds.
\<close>

lemma rdp_stack_overrun:
  "rdp_simplify seg_point_dist2 (\<lambda>x. x * x)
     [\<lparr>lat = 0, lon = 64\<rparr>, \<lparr>lat = 0, lon = - 32\<rparr>, \<lparr>lat = 0, lon = 16\<rparr>, \<lparr>lat = 0, lon = - 8\<rparr>,
      \<lparr>lat = 0, lon = 4\<rparr>, \<lparr>lat = 0, lon = - 2\<rparr>, \<lparr>lat = 0, lon = 1\<rparr>, \<lparr>lat = 0, lon = 0\<rparr>] 0 8 = None"
  by code_simp

text \<open>
  C9, as the code has it.  The test for keeping the farthest point of a span is the strict
  \<^verbatim>\<open>bestd2 > eps*eps\<close>, on the doubles that \<^verbatim>\<open>seg_point_dist2\<close> and the product return.  Take a
  tolerance whose square is 0 (the tolerance 0, or one so small that the product underflows), a
  non-empty input and an output buffer with room for it.  With at most seven points
  \<^verbatim>\<open>rdp_simplify\<close> returns normally (with more, its stack of \<open>n + 5\<close> integers may overrun).  Whenever
  it returns normally, the output is the input restricted to the kept indices; the first and the
  last point are kept; a point that is dropped has a computed squared distance that is not
  positive (so: 0) to the segment between the nearest kept points on either side of it; and an
  interior point that is kept has a positive computed squared distance to the segment between
  two kept points around it, and is the farthest point between them.  So the output is the full
  input only if no interior point has the computed distance 0 to such a segment.
\<close>

theorem rdp_zero_tolerance:
  assumes zero: "sq eps = 0" and room: "length pts \<le> out_max" and ne: "pts \<noteq> []"
  shows "(length pts \<le> 7 \<longrightarrow> rdp_simplify dist2 sq pts eps out_max \<noteq> None) \<and>
         (\<forall>out. rdp_simplify dist2 sq pts eps out_max = Some out \<longrightarrow>
            (\<exists>keep. length keep = length pts \<and>
               out = map (\<lambda>i. pts ! i) (filter (\<lambda>i. keep ! i) [0..<length pts]) \<and>
               keep ! 0 \<and> keep ! (length pts - 1) \<and>
               (\<forall>k < length pts. \<not> keep ! k \<longrightarrow>
                  (\<exists>i j. i < k \<and> k < j \<and> kept_pair keep i j \<and>
                         dist2 (pts ! i) (pts ! j) (pts ! k) \<le> 0)) \<and>
               (\<forall>k < length pts. keep ! k \<longrightarrow> k = 0 \<or> k = length pts - 1 \<or>
                  (\<exists>i j. i < k \<and> k < j \<and> j < length pts \<and> keep ! i \<and> keep ! j \<and>
                         0 < dist2 (pts ! i) (pts ! j) (pts ! k) \<and>
                         (\<forall>m. i < m \<and> m < j \<longrightarrow>
                            dist2 (pts ! i) (pts ! j) (pts ! m)
                              \<le> dist2 (pts ! i) (pts ! j) (pts ! k))))))"
proof (cases "length pts = 1")
  case True
  have r: "rdp_simplify dist2 sq pts eps out_max = Some [pts ! 0]"
    using True room by (simp add: rdp_simplify_def Let_def)
  have "\<exists>keep. length keep = length pts \<and>
               [pts ! 0] = map (\<lambda>i. pts ! i) (filter (\<lambda>i. keep ! i) [0..<length pts]) \<and>
               keep ! 0 \<and> keep ! (length pts - 1) \<and>
               (\<forall>k < length pts. \<not> keep ! k \<longrightarrow>
                  (\<exists>i j. i < k \<and> k < j \<and> kept_pair keep i j \<and>
                         dist2 (pts ! i) (pts ! j) (pts ! k) \<le> 0)) \<and>
               (\<forall>k < length pts. keep ! k \<longrightarrow> k = 0 \<or> k = length pts - 1 \<or>
                  (\<exists>i j. i < k \<and> k < j \<and> j < length pts \<and> keep ! i \<and> keep ! j \<and>
                         0 < dist2 (pts ! i) (pts ! j) (pts ! k) \<and>
                         (\<forall>m. i < m \<and> m < j \<longrightarrow>
                            dist2 (pts ! i) (pts ! j) (pts ! m)
                              \<le> dist2 (pts ! i) (pts ! j) (pts ! k))))"
    using True by (intro exI [of _ "[True]"]) simp
  then show ?thesis unfolding r by simp
next
  case False
  define k where "k = length pts"
  have "length pts \<noteq> 0" using ne by simp
  then have k2: "2 \<le> k" using False unfolding k_def by linarith
  let ?keep0 = "(replicate k False)[0 := True, k - 1 := True]"
  have run: "rdp_simplify dist2 sq pts eps out_max =
           (case rdp_loop dist2 pts 0 (k + 5) [(0, k - 1)] ?keep0 of
              None \<Rightarrow> None
            | Some keep \<Rightarrow> Some (map (\<lambda>i. pts ! i) (filter (\<lambda>i. keep ! i) [0..<k])))"
    using rdp_simplify_run [of pts out_max dist2 sq eps] k2 room unfolding k_def zero by simp
  have inv0: "rdp_inv dist2 pts 0 [(0, k - 1)] ?keep0" using rdp_inv_init [OF k2] .
  have total: "rdp_loop dist2 pts 0 (k + 5) [(0, k - 1)] ?keep0 \<noteq> None" if "k \<le> 7"
  proof (rule rdp_loop_total [OF inv0])
    show "length [(0, k - 1)] + dropped ?keep0 \<le> length ?keep0 - 1"
      using dropped_init [OF k2] by simp
    show "length ?keep0 \<le> 7" using that by simp
    show "k + 5 = length ?keep0 + 5" by simp
    show "(0::real) \<le> 0" by simp
  qed
  have part1: "length pts \<le> 7 \<longrightarrow> rdp_simplify dist2 sq pts eps out_max \<noteq> None"
    using total unfolding run k_def by (auto split: option.splits)
  have part2: "\<exists>keep. length keep = length pts \<and>
               out = map (\<lambda>i. pts ! i) (filter (\<lambda>i. keep ! i) [0..<length pts]) \<and>
               keep ! 0 \<and> keep ! (length pts - 1) \<and>
               (\<forall>k < length pts. \<not> keep ! k \<longrightarrow>
                  (\<exists>i j. i < k \<and> k < j \<and> kept_pair keep i j \<and>
                         dist2 (pts ! i) (pts ! j) (pts ! k) \<le> 0)) \<and>
               (\<forall>k < length pts. keep ! k \<longrightarrow> k = 0 \<or> k = length pts - 1 \<or>
                  (\<exists>i j. i < k \<and> k < j \<and> j < length pts \<and> keep ! i \<and> keep ! j \<and>
                         0 < dist2 (pts ! i) (pts ! j) (pts ! k) \<and>
                         (\<forall>m. i < m \<and> m < j \<longrightarrow>
                            dist2 (pts ! i) (pts ! j) (pts ! m)
                              \<le> dist2 (pts ! i) (pts ! j) (pts ! k))))"
    if res: "rdp_simplify dist2 sq pts eps out_max = Some out" for out
  proof -
    from res obtain keep where
      loop: "rdp_loop dist2 pts 0 (k + 5) [(0, k - 1)] ?keep0 = Some keep" and
      out: "out = map (\<lambda>i. pts ! i) (filter (\<lambda>i. keep ! i) [0..<k])"
      unfolding run by (auto split: option.splits)
    from rdp_loop_result [OF inv0 kept_inv_init loop]
    have r: "length keep = k" "\<forall>m < k. ?keep0 ! m \<longrightarrow> keep ! m"
      "\<forall>i j. kept_pair keep i j \<longrightarrow> within_eps dist2 pts 0 i j"
      "kept_inv dist2 pts 0 keep"
      by simp_all
    have e0: "keep ! 0" using r(2) k2 by (auto simp: nth_list_update)
    have e1: "keep ! (k - 1)" using r(2) k2 by (auto simp: nth_list_update)
    have drop: "\<exists>i j. i < m \<and> m < j \<and> kept_pair keep i j \<and>
                       dist2 (pts ! i) (pts ! j) (pts ! m) \<le> 0"
      if m: "m < k" "\<not> keep ! m" for m
    proof -
      from enclosing_pair [of keep m] e0 e1 m r(1)
      obtain i j where ij: "i < m" "m < j" "kept_pair keep i j" by auto
      then have "dist2 (pts ! i) (pts ! j) (pts ! m) \<le> 0"
        using r(3) unfolding within_eps_def by blast
      then show ?thesis using ij by blast
    qed
    have kept: "m = 0 \<or> m = k - 1 \<or>
                  (\<exists>i j. i < m \<and> m < j \<and> j < k \<and> keep ! i \<and> keep ! j \<and>
                         0 < dist2 (pts ! i) (pts ! j) (pts ! m) \<and>
                         (\<forall>a. i < a \<and> a < j \<longrightarrow>
                            dist2 (pts ! i) (pts ! j) (pts ! a)
                              \<le> dist2 (pts ! i) (pts ! j) (pts ! m)))"
      if m: "m < k" "keep ! m" for m
      using r(4) m unfolding kept_inv_def split_point_def r(1) by blast
    show ?thesis
      unfolding k_def [symmetric]
      using r(1) out e0 e1 drop kept by (intro exI [of _ keep] conjI allI impI) blast+
  qed
  show ?thesis using part1 part2 by blast
qed

theorem rdp_zero_tolerance_witness:
  "(\<lambda>x :: real. x * x) 0 = 0 \<and>
   length [\<lparr>lat = 0, lon = 0\<rparr>, \<lparr>lat = 0, lon = 1\<rparr>, \<lparr>lat = 0, lon = 2\<rparr>, \<lparr>lat = 1, lon = 2 :: real\<rparr>] \<le> 4 \<and>
   rdp_simplify seg_point_dist2 (\<lambda>x. x * x)
       [\<lparr>lat = 0, lon = 0\<rparr>, \<lparr>lat = 0, lon = 1\<rparr>, \<lparr>lat = 0, lon = 2\<rparr>, \<lparr>lat = 1, lon = 2\<rparr>] 0 4
     = Some [\<lparr>lat = 0, lon = 0\<rparr>, \<lparr>lat = 0, lon = 2\<rparr>, \<lparr>lat = 1, lon = 2\<rparr>] \<and>
   (\<exists>keep. length keep = 4 \<and> keep ! 0 \<and> keep ! 3 \<and>
      [\<lparr>lat = 0, lon = 0\<rparr>, \<lparr>lat = 0, lon = 2\<rparr>, \<lparr>lat = 1, lon = 2\<rparr>] =
        map (\<lambda>i. [\<lparr>lat = 0, lon = 0\<rparr>, \<lparr>lat = 0, lon = 1\<rparr>, \<lparr>lat = 0, lon = 2\<rparr>, \<lparr>lat = 1, lon = 2\<rparr>] ! i)
            (filter (\<lambda>i. keep ! i) [0..<4]))"
proof -
  let ?pts = "[\<lparr>lat = 0, lon = 0\<rparr>, \<lparr>lat = 0, lon = 1\<rparr>, \<lparr>lat = 0, lon = 2\<rparr>, \<lparr>lat = 1, lon = 2 :: real\<rparr>]"
  let ?out = "[\<lparr>lat = 0, lon = 0\<rparr>, \<lparr>lat = 0, lon = 2\<rparr>, \<lparr>lat = 1, lon = 2 :: real\<rparr>]"
  have zero: "(\<lambda>x :: real. x * x) 0 = 0" by simp
  have res: "rdp_simplify seg_point_dist2 (\<lambda>x. x * x) ?pts 0 4 = Some ?out"
    by code_simp
  have room: "length ?pts \<le> 4" by simp
  have ne: "?pts \<noteq> []" by simp
  have l4: "length ?pts = 4" by simp
  note t = rdp_zero_tolerance [of "\<lambda>x. x * x" 0 ?pts 4 seg_point_dist2, OF zero room ne]
  from t [THEN conjunct2, rule_format, OF res]
  obtain keep where k: "length keep = length ?pts \<and>
    ?out = map (\<lambda>i. ?pts ! i) (filter (\<lambda>i. keep ! i) [0..<length ?pts]) \<and>
    keep ! 0 \<and> keep ! (length ?pts - 1)"
    by (elim exE conjE) (rule that, intro conjI)
  have k': "length keep = 4 \<and> keep ! 0 \<and> keep ! 3 \<and>
        ?out = map (\<lambda>i. ?pts ! i) (filter (\<lambda>i. keep ! i) [0..<4])"
    using k unfolding l4 by simp
  show ?thesis
    by (rule conjI [OF zero], rule conjI [OF room], rule conjI [OF res], rule exI [of _ keep], rule k')
qed

theorem rdp_zero_tolerance_counterexample:
  "rdp_simplify seg_point_dist2 (\<lambda>x. x * x)
       [\<lparr>lat = 0, lon = 0\<rparr>, \<lparr>lat = 0, lon = 1\<rparr>, \<lparr>lat = 0, lon = 2\<rparr>] 0 3
     = Some [\<lparr>lat = 0, lon = 0\<rparr>, \<lparr>lat = 0, lon = 2\<rparr>] \<and>
   \<lparr>lat = 0, lon = 1 :: real\<rparr> \<notin> set [\<lparr>lat = 0, lon = 0\<rparr>, \<lparr>lat = 0, lon = 2\<rparr>]"
  by code_simp

section \<open>adb[1].h: shared data\<close>

definition MAXV :: nat where
  "MAXV = 1500"

definition MAXE :: nat where
  "MAXE = MAXV * 16"

text \<open>
  The global variables of \<^verbatim>\<open>adb[1].h\<close>.  The arrays are functions from the index.  \<open>hav i j\<close> stands
  for the value of \<^verbatim>\<open>haversine_km_idx(i, j)\<close>, which the code computes from \<^verbatim>\<open>lat\<close> and \<^verbatim>\<open>lon\<close> in
  floating point; the model takes it as given.  \<^verbatim>\<open>head\<close>, \<^verbatim>\<open>nxt\<close> and \<^verbatim>\<open>parent\<close> hold an index or
  \<open>-1\<close>.
\<close>

record gstate =
  V :: nat
  hav :: "nat \<Rightarrow> nat \<Rightarrow> real"
  head :: "nat \<Rightarrow> int"
  to :: "nat \<Rightarrow> nat"
  nxt :: "nat \<Rightarrow> int"
  w :: "nat \<Rightarrow> real"
  E :: nat
  parent :: "nat \<Rightarrow> int"
  distv :: "nat \<Rightarrow> real"
  used :: "nat \<Rightarrow> bool"
  skip_u :: int
  skip_v :: int

text \<open>A \<^verbatim>\<open>Path\<close>: \<^verbatim>\<open>len\<close> is the length of \<open>nodes\<close>.\<close>

record Path =
  nodes :: "nat list"
  cost :: real

section \<open>adb[1].h: graph builder\<close>

definition reset_graph :: "gstate \<Rightarrow> gstate" where
  "reset_graph st = st\<lparr>head := (\<lambda>i. - 1), E := 0\<rparr>"

text \<open>One adjacency record: \<^verbatim>\<open>to[E]=b; w[E]=ww; nxt[E]=head[a]; head[a]=E++;\<close>\<close>

definition push_edge :: "nat \<Rightarrow> nat \<Rightarrow> real \<Rightarrow> gstate \<Rightarrow> gstate" where
  "push_edge a b ww st =
     st\<lparr>to := (to st)(E st := b), w := (w st)(E st := ww), nxt := (nxt st)(E st := head st a),
        head := (head st)(a := int (E st)), E := E st + 1\<rparr>"

definition add_edge :: "int \<Rightarrow> int \<Rightarrow> real \<Rightarrow> gstate \<Rightarrow> failure + gstate" where
  "add_edge a b ww st =
     (if a < 0 \<or> a \<ge> int (V st) \<or> b < 0 \<or> b \<ge> int (V st) \<or> a = b then Inr st
      else if E st + 2 \<ge> MAXE then Inl (Die ''Edge capacity exceeded (raise MAXE).'')
      else Inr (push_edge (nat b) (nat a) ww (push_edge (nat a) (nat b) ww st)))"

text \<open>
  One pass of the partial selection sort in \<^verbatim>\<open>build_knn_fixed\<close>: the index of the least distance
  among the positions \<open>i, \<dots>, V - 1\<close> (the first one on ties), then the swap of both arrays.
\<close>

definition least_from :: "real list \<Rightarrow> nat \<Rightarrow> nat" where
  "least_from dists i = fold (\<lambda>j mi. if dists ! j < dists ! mi then j else mi) [i + 1..<length dists] i"

definition swap_at :: "'a list \<Rightarrow> nat \<Rightarrow> nat \<Rightarrow> 'a list" where
  "swap_at xs i mi = xs[i := xs ! mi, mi := xs ! i]"

definition select_step :: "nat \<Rightarrow> real list \<times> nat list \<Rightarrow> real list \<times> nat list" where
  "select_step i di =
     (case di of (dists, idx) \<Rightarrow>
        (let mi = least_from dists i in (swap_at dists i mi, swap_at idx i mi)))"

definition nearest :: "gstate \<Rightarrow> nat \<Rightarrow> nat \<Rightarrow> nat list" where
  "nearest st k u =
     (let dists = map (\<lambda>b. if u = b then INF_val else hav st u b) [0..<V st];
          idx = [0..<V st];
          sel = fold select_step [0..<min k (V st)] (dists, idx)
      in take (min k (V st)) (snd sel))"

fun add_edges :: "nat \<Rightarrow> nat list \<Rightarrow> gstate \<Rightarrow> failure + gstate" where
  "add_edges u [] st = Inr st"
| "add_edges u (b # bs) st =
     (if b \<noteq> u
      then (case add_edge (int u) (int b) (hav st u b) st of
              Inl e \<Rightarrow> Inl e
            | Inr st' \<Rightarrow> add_edges u bs st')
      else add_edges u bs st)"

fun knn_loop :: "nat \<Rightarrow> nat list \<Rightarrow> gstate \<Rightarrow> failure + gstate" where
  "knn_loop k [] st = Inr st"
| "knn_loop k (u # us) st =
     (case add_edges u (nearest st k u) st of
        Inl e \<Rightarrow> Inl e
      | Inr st' \<Rightarrow> knn_loop k us st')"

definition build_knn_fixed :: "int \<Rightarrow> gstate \<Rightarrow> failure + gstate" where
  "build_knn_fixed k0 st0 =
     (let st = reset_graph st0;
          k1 = (if k0 < 1 then 1 else k0);
          k = (if int (V st) - 1 < k1 then int (V st) - 1 else k1)
      in knn_loop (nat k) [0..<V st] st)"

section \<open>adb[1].h: shortest paths\<close>

definition minQ_step :: "gstate \<Rightarrow> nat \<Rightarrow> real \<times> int \<Rightarrow> real \<times> int" where
  "minQ_step st i bb =
     (if \<not> used st i \<and> distv st i < fst bb then (distv st i, int i) else bb)"

definition minQ :: "gstate \<Rightarrow> int" where
  "minQ st = snd (fold (minQ_step st) [0..<V st] (INF_val, - 1))"

definition init_search :: "nat \<Rightarrow> gstate \<Rightarrow> gstate" where
  "init_search s st =
     st\<lparr>distv := (\<lambda>i. if i < V st then INF_val else distv st i)(s := 0),
        used := (\<lambda>i. if i < V st then False else used st i),
        parent := (\<lambda>i. if i < V st then - 1 else parent st i)\<rparr>"

text \<open>The test of \<^verbatim>\<open>dijkstra_skip_edge\<close> for the excluded undirected edge.\<close>

definition is_skipped :: "gstate \<Rightarrow> nat \<Rightarrow> nat \<Rightarrow> bool" where
  "is_skipped st u b =
     ((int u = skip_u st \<and> int b = skip_v st) \<or> (int u = skip_v st \<and> int b = skip_u st))"

text \<open>
  The body of the relaxation loop for the record \<open>e\<close> of node \<open>u\<close>.  \<open>sk\<close> tells the two copies of
  the loop apart: \<^verbatim>\<open>dijkstra_skip_edge\<close> (\<open>True\<close>) has the test, \<^verbatim>\<open>ecodijkstra\<close> (\<open>False\<close>) has not.
\<close>

definition relax :: "bool \<Rightarrow> nat \<Rightarrow> nat \<Rightarrow> gstate \<Rightarrow> gstate" where
  "relax sk u e st =
     (let b = to st e in
      if sk \<and> is_skipped st u b then st
      else (let alt = distv st u + w st e in
            if alt < distv st b
            then st\<lparr>distv := (distv st)(b := alt), parent := (parent st)(b := int u)\<rparr>
            else st))"

text \<open>
  \<^verbatim>\<open>for(int e=head[u]; e!=-1; e=nxt[e])\<close>.  Nothing in the code bounds this loop: it ends when the
  chain of \<^verbatim>\<open>nxt\<close> reaches \<open>-1\<close>.  \<open>None\<close>: the fuel ran out, or the index is negative.
\<close>

fun relax_loop :: "nat \<Rightarrow> bool \<Rightarrow> nat \<Rightarrow> int \<Rightarrow> gstate \<Rightarrow> gstate option" where
  "relax_loop 0 sk u e st = (if e = - 1 then Some st else None)"
| "relax_loop (Suc fuel) sk u e st =
     (if e = - 1 then Some st
      else if e < 0 then None
      else relax_loop fuel sk u (nxt st (nat e)) (relax sk u (nat e) st))"

text \<open>The main loop of both searches; \<open>rounds\<close> bounds the number of iterations.\<close>

fun dijk_loop :: "nat \<Rightarrow> nat \<Rightarrow> bool \<Rightarrow> nat \<Rightarrow> gstate \<Rightarrow> gstate option" where
  "dijk_loop fuel 0 sk t st = None"
| "dijk_loop fuel (Suc rounds) sk t st =
     (let u = minQ st in
      if u = - 1 then Some st
      else (let st1 = st\<lparr>used := (used st)(nat u := True)\<rparr> in
            if u = int t then Some st1
            else (case relax_loop fuel sk (nat u) (head st1 (nat u)) st1 of
                    None \<Rightarrow> None
                  | Some st2 \<Rightarrow> dijk_loop fuel rounds sk t st2)))"

definition ecodijkstra :: "nat \<Rightarrow> nat \<Rightarrow> nat \<Rightarrow> gstate \<Rightarrow> gstate option" where
  "ecodijkstra fuel s t st = dijk_loop fuel fuel False t (init_search s st)"

definition dijkstra_skip_edge :: "nat \<Rightarrow> nat \<Rightarrow> nat \<Rightarrow> gstate \<Rightarrow> gstate option" where
  "dijkstra_skip_edge fuel s t st = dijk_loop fuel fuel True t (init_search s st)"

text \<open>
  \<^verbatim>\<open>for(int v=t; v!=-1; v=parent[v]) tmp[k++]=v;\<close> with \<^verbatim>\<open>int tmp[MAXV]\<close>: the indices met on
  the way from \<open>b\<close> along \<open>next\<close> until \<open>-1\<close>.  \<open>room\<close> is the number of free slots of \<^verbatim>\<open>tmp\<close>, and
  \<open>None\<close> is a write beyond it (or a negative index).
\<close>

fun chain_from :: "nat \<Rightarrow> (nat \<Rightarrow> int) \<Rightarrow> int \<Rightarrow> nat list option" where
  "chain_from 0 next b = (if b = - 1 then Some [] else None)"
| "chain_from (Suc room) next b =
     (if b = - 1 then Some []
      else if b < 0 then None
      else (case chain_from room next (next (nat b)) of
              None \<Rightarrow> None
            | Some bs \<Rightarrow> Some (nat b # bs)))"

definition build_path :: "nat \<Rightarrow> gstate \<Rightarrow> nat list option" where
  "build_path t st =
     (if distv st t \<ge> INF_val / 2 then Some []
      else (case chain_from MAXV (parent st) (int t) of
              None \<Rightarrow> None
            | Some tmp \<Rightarrow> Some (rev tmp)))"

fun equal_nodes :: "nat list \<Rightarrow> nat list \<Rightarrow> bool" where
  "equal_nodes [] [] = True"
| "equal_nodes (x # xs) (y # ys) = (if x \<noteq> y then False else equal_nodes xs ys)"
| "equal_nodes _ _ = True"

definition equal_paths :: "Path \<Rightarrow> Path \<Rightarrow> bool" where
  "equal_paths a b =
     (if length (nodes a) \<noteq> length (nodes b) then False else equal_nodes (nodes a) (nodes b))"

text \<open>The sum of \<^verbatim>\<open>haversine_km_idx\<close> over the consecutive pairs of a node sequence.\<close>

definition path_km :: "gstate \<Rightarrow> nat list \<Rightarrow> real" where
  "path_km st xs = (\<Sum>(a, b) \<leftarrow> zip xs (tl xs). hav st a b)"

text \<open>
  One round of the spur loop of \<^verbatim>\<open>yen_k2_paths\<close> for the position \<open>i\<close> of the best path \<open>prev\<close>;
  \<open>cands\<close> is the array \<^verbatim>\<open>A\<close> (64 slots).  The candidate has \<^verbatim>\<open>MAXV\<close> slots for its nodes.
\<close>

definition spur_step ::
    "nat \<Rightarrow> nat \<Rightarrow> nat list \<Rightarrow> nat \<Rightarrow> gstate \<times> Path list \<Rightarrow> (gstate \<times> Path list) option" where
  "spur_step fuel t prev i sa =
     (case sa of (st, cands) \<Rightarrow>
        (let st1 = st\<lparr>skip_u := int (prev ! i), skip_v := int (prev ! (i + 1))\<rparr> in
         case dijkstra_skip_edge fuel (prev ! i) t st1 of
           None \<Rightarrow> None
         | Some st2 \<Rightarrow>
             if distv st2 t \<ge> INF_val / 2 then Some (st2, cands)
             else (case chain_from MAXV (parent st2) (int t) of
                     None \<Rightarrow> None
                   | Some tmp \<Rightarrow>
                       (let spur_nodes = rev tmp;
                            cand = \<lparr>nodes = take (i + 1) prev @ tl spur_nodes,
                                    cost = path_km st2 (take (i + 1) prev) + path_km st2 spur_nodes\<rparr>
                        in if length (nodes cand) > MAXV then None
                           else if \<not> list_ex (\<lambda>p. equal_paths p cand) cands \<and> length cands < 64
                                then Some (st2, cands @ [cand])
                                else Some (st2, cands)))))"

fun spur_loop ::
    "nat \<Rightarrow> nat \<Rightarrow> nat list \<Rightarrow> nat list \<Rightarrow> gstate \<times> Path list \<Rightarrow> (gstate \<times> Path list) option" where
  "spur_loop fuel t prev [] sa = Some sa"
| "spur_loop fuel t prev (i # is) sa =
     (case spur_step fuel t prev i sa of
        None \<Rightarrow> None
      | Some sa' \<Rightarrow> spur_loop fuel t prev is sa')"

definition cheapest :: "Path list \<Rightarrow> nat" where
  "cheapest cands =
     fold (\<lambda>i besti. if cost (cands ! i) < cost (cands ! besti) then i else besti) [1..<length cands] 0"

definition yen_k2_paths :: "nat \<Rightarrow> nat \<Rightarrow> nat \<Rightarrow> gstate \<Rightarrow> (gstate \<times> Path list) option" where
  "yen_k2_paths fuel s t st =
     (case ecodijkstra fuel s t st of
        None \<Rightarrow> None
      | Some st1 \<Rightarrow>
          (let best = distv st1 t in
           if best \<ge> INF_val / 2 then Some (st1, [])
           else (case build_path t st1 of
                   None \<Rightarrow> None
                 | Some bp \<Rightarrow>
                     (let out0 = \<lparr>nodes = bp, cost = best\<rparr> in
                      case spur_loop fuel t bp [0..<length bp - 1] (st1, []) of
                        None \<Rightarrow> None
                      | Some (st2, cands) \<Rightarrow>
                          (let st3 = st2\<lparr>skip_u := - 1, skip_v := - 1\<rparr> in
                           if cands = [] then Some (st3, [out0])
                           else Some (st3, [out0, cands ! cheapest cands]))))))"

text \<open>
  \<^verbatim>\<open>ecopath\<close> after the graph is built and the two places are resolved to \<open>s\<close> and \<open>t\<close>.
  \<open>None\<close>: a loop did not finish within the fuel.
\<close>

definition ecopath_route :: "nat \<Rightarrow> nat \<Rightarrow> nat \<Rightarrow> gstate \<Rightarrow> (failure + Path list) option" where
  "ecopath_route fuel s t st =
     (if s = t then Some (Inl (Die ''Source and destination must differ.''))
      else (case yen_k2_paths fuel s t st of
              None \<Rightarrow> None
            | Some (st', routes) \<Rightarrow> if routes = [] then Some (Inl NoRoute) else Some (Inr routes)))"

text \<open>A test graph: places on a line, \<open>hav i j = |i - j|\<close>.\<close>

definition line_places :: "nat \<Rightarrow> gstate" where
  "line_places k =
     \<lparr>V = k, hav = (\<lambda>i j. \<bar>real i - real j\<bar>), head = (\<lambda>i. - 1), to = (\<lambda>e. 0), nxt = (\<lambda>e. - 1),
      w = (\<lambda>e. 0), E = 0, parent = (\<lambda>i. - 1), distv = (\<lambda>i. 0), used = (\<lambda>i. False),
      skip_u = - 1, skip_v = - 1\<rparr>"

section \<open>adb[1].h: the searches leave the graph alone\<close>

text \<open>The graph proper: node count, adjacency arrays and edge count.\<close>

definition graph_of :: "gstate \<Rightarrow> nat \<times> (nat \<Rightarrow> int) \<times> (nat \<Rightarrow> nat) \<times> (nat \<Rightarrow> int) \<times> (nat \<Rightarrow> real) \<times> nat" where
  "graph_of st = (V st, head st, to st, nxt st, w st, E st)"

definition same_graph :: "gstate \<Rightarrow> gstate \<Rightarrow> bool" where
  "same_graph st st' \<longleftrightarrow> graph_of st' = graph_of st \<and> hav st' = hav st"

definition same_skip :: "gstate \<Rightarrow> gstate \<Rightarrow> bool" where
  "same_skip st st' \<longleftrightarrow> skip_u st' = skip_u st \<and> skip_v st' = skip_v st"

lemma same_graph_refl: "same_graph st st"
  by (simp add: same_graph_def)

lemma same_graph_trans: "same_graph a b \<Longrightarrow> same_graph b c \<Longrightarrow> same_graph a c"
  by (simp add: same_graph_def)

lemma same_skip_trans: "same_skip a b \<Longrightarrow> same_skip b c \<Longrightarrow> same_skip a c"
  by (simp add: same_skip_def)

lemma relax_frame: "same_graph st (relax sk u e st) \<and> same_skip st (relax sk u e st)"
  by (simp add: relax_def same_graph_def same_skip_def graph_of_def Let_def)

lemma relax_loop_frame:
  "relax_loop fuel sk u e st = Some st' \<Longrightarrow> same_graph st st' \<and> same_skip st st'"
proof (induction fuel arbitrary: e st)
  case 0
  then show ?case by (auto simp: same_graph_def same_skip_def split: if_splits)
next
  case (Suc fuel)
  show ?case
  proof (cases "e = - 1")
    case True
    then show ?thesis using Suc.prems by (auto simp: same_graph_def same_skip_def)
  next
    case False
    then have r: "relax_loop fuel sk u (nxt st (nat e)) (relax sk u (nat e) st) = Some st'"
      using Suc.prems by (auto split: if_splits)
    from Suc.IH [OF r] relax_frame [of st sk u "nat e"]
    show ?thesis using same_graph_trans same_skip_trans by blast
  qed
qed

lemma mark_used_frame:
  "same_graph st (st\<lparr>used := f\<rparr>) \<and> same_skip st (st\<lparr>used := f\<rparr>)"
  by (simp add: same_graph_def same_skip_def graph_of_def)

lemma dijk_loop_frame:
  "dijk_loop fuel rounds sk t st = Some st' \<Longrightarrow> same_graph st st' \<and> same_skip st st'"
proof (induction rounds arbitrary: st)
  case 0
  then show ?case by simp
next
  case (Suc rounds)
  let ?u = "minQ st"
  let ?st1 = "st\<lparr>used := (used st)(nat ?u := True)\<rparr>"
  show ?case
  proof (cases "?u = - 1")
    case True
    then show ?thesis using Suc.prems by (simp add: same_graph_def same_skip_def)
  next
    case False
    note nu = False
    show ?thesis
    proof (cases "?u = int t")
      case True
      then have "st' = ?st1" using Suc.prems nu by (simp add: Let_def)
      then show ?thesis using mark_used_frame by simp
    next
      case False
      then obtain st2 where
        r: "relax_loop fuel sk (nat ?u) (head ?st1 (nat ?u)) ?st1 = Some st2" and
        d: "dijk_loop fuel rounds sk t st2 = Some st'"
        using Suc.prems nu by (auto simp: Let_def split: option.splits)
      from relax_loop_frame [OF r] Suc.IH [OF d] mark_used_frame [of st]
      show ?thesis using same_graph_trans same_skip_trans by blast
    qed
  qed
qed

lemma init_search_frame: "same_graph st (init_search s st) \<and> same_skip st (init_search s st)"
  by (simp add: init_search_def same_graph_def same_skip_def graph_of_def)

lemma ecodijkstra_frame:
  "ecodijkstra fuel s t st = Some st' \<Longrightarrow> same_graph st st' \<and> same_skip st st'"
  unfolding ecodijkstra_def
  using dijk_loop_frame init_search_frame same_graph_trans same_skip_trans by blast

lemma dijkstra_skip_edge_frame:
  "dijkstra_skip_edge fuel s t st = Some st' \<Longrightarrow> same_graph st st' \<and> same_skip st st'"
  unfolding dijkstra_skip_edge_def
  using dijk_loop_frame init_search_frame same_graph_trans same_skip_trans by blast

lemma spur_step_frame:
  assumes "spur_step fuel t prev i (st, cands) = Some (st', cands')"
  shows "same_graph st st'"
proof -
  let ?st1 = "st\<lparr>skip_u := int (prev ! i), skip_v := int (prev ! (i + 1))\<rparr>"
  from assms obtain st2 where d: "dijkstra_skip_edge fuel (prev ! i) t ?st1 = Some st2"
    by (auto simp: spur_step_def Let_def split: option.splits)
  then have "st' = st2"
    using assms by (auto simp: spur_step_def Let_def split: option.splits if_splits)
  moreover have "same_graph st ?st1" by (simp add: same_graph_def graph_of_def)
  ultimately show ?thesis
    using dijkstra_skip_edge_frame [OF d] same_graph_trans by blast
qed

lemma spur_loop_frame:
  "spur_loop fuel t prev is (st, cands) = Some (st', cands') \<Longrightarrow> same_graph st st'"
proof (induction "is" arbitrary: st cands)
  case Nil
  then show ?case by (simp add: same_graph_def)
next
  case (Cons i "is")
  from Cons.prems obtain st1 cands1 where
    s: "spur_step fuel t prev i (st, cands) = Some (st1, cands1)" and
    l: "spur_loop fuel t prev is (st1, cands1) = Some (st', cands')"
    by (auto split: option.splits)
  from spur_step_frame [OF s] Cons.IH [OF l] show ?case
    using same_graph_trans by blast
qed

lemma yen_cases:
  assumes "yen_k2_paths fuel s t st = Some (st', ps)"
  obtains (unreachable) st1 where "ecodijkstra fuel s t st = Some st1" "distv st1 t \<ge> INF_val / 2"
      "st' = st1" "ps = []"
  | (found) st1 bp st2 cands where "ecodijkstra fuel s t st = Some st1" "distv st1 t < INF_val / 2"
      "build_path t st1 = Some bp"
      "spur_loop fuel t bp [0..<length bp - 1] (st1, []) = Some (st2, cands)"
      "st' = st2\<lparr>skip_u := - 1, skip_v := - 1\<rparr>"
      "ps = (if cands = [] then [\<lparr>nodes = bp, cost = distv st1 t\<rparr>]
             else [\<lparr>nodes = bp, cost = distv st1 t\<rparr>, cands ! cheapest cands])"
proof -
  from assms obtain st1 where e: "ecodijkstra fuel s t st = Some st1"
    by (auto simp: yen_k2_paths_def split: option.splits)
  show ?thesis
  proof (cases "distv st1 t \<ge> INF_val / 2")
    case True
    then have "st' = st1" "ps = []" using assms e by (auto simp: yen_k2_paths_def Let_def)
    then show ?thesis using unreachable e True by blast
  next
    case False
    then obtain bp st2 cands where
      b: "build_path t st1 = Some bp" and
      l: "spur_loop fuel t bp [0..<length bp - 1] (st1, []) = Some (st2, cands)"
      using assms e by (auto simp: yen_k2_paths_def Let_def split: option.splits)
    have "st' = st2\<lparr>skip_u := - 1, skip_v := - 1\<rparr>"
      "ps = (if cands = [] then [\<lparr>nodes = bp, cost = distv st1 t\<rparr>]
             else [\<lparr>nodes = bp, cost = distv st1 t\<rparr>, cands ! cheapest cands])"
      using assms e False b l by (auto simp: yen_k2_paths_def Let_def split: if_splits)
    then show ?thesis using found [OF e _ b l] False by simp
  qed
qed

text \<open>
  C8.  The exclude-one-edge search changes neither the graph (node count, \<^verbatim>\<open>head\<close>, \<^verbatim>\<open>to\<close>,
  \<^verbatim>\<open>nxt\<close>, \<^verbatim>\<open>w\<close>, edge count \<^verbatim>\<open>E\<close>) nor the excluded pair, whatever that pair is; \<^verbatim>\<open>yen_k2_paths\<close>
  does not change the graph either, and when it returns, the excluded pair is \<open>(-1, -1)\<close>: it
  resets the pair whenever a best path exists, and does not touch it otherwise (the pair is
  \<open>(-1, -1)\<close> when the program starts and only \<^verbatim>\<open>yen_k2_paths\<close> writes it).
\<close>

theorem exclusion_keeps_graph:
  "(dijkstra_skip_edge fuel s t st = Some st' \<longrightarrow>
      graph_of st' = graph_of st \<and> skip_u st' = skip_u st \<and> skip_v st' = skip_v st) \<and>
   (yen_k2_paths fuel s t st = Some (st'', ps) \<longrightarrow>
      graph_of st'' = graph_of st \<and>
      (ps \<noteq> [] \<or> (skip_u st = - 1 \<and> skip_v st = - 1) \<longrightarrow> skip_u st'' = - 1 \<and> skip_v st'' = - 1))"
proof (rule conjI)
  show "dijkstra_skip_edge fuel s t st = Some st' \<longrightarrow>
      graph_of st' = graph_of st \<and> skip_u st' = skip_u st \<and> skip_v st' = skip_v st"
  proof (rule impI)
    assume "dijkstra_skip_edge fuel s t st = Some st'"
    from dijkstra_skip_edge_frame [OF this]
    show "graph_of st' = graph_of st \<and> skip_u st' = skip_u st \<and> skip_v st' = skip_v st"
      by (simp add: same_graph_def same_skip_def)
  qed
  show "yen_k2_paths fuel s t st = Some (st'', ps) \<longrightarrow>
      graph_of st'' = graph_of st \<and>
      (ps \<noteq> [] \<or> (skip_u st = - 1 \<and> skip_v st = - 1) \<longrightarrow> skip_u st'' = - 1 \<and> skip_v st'' = - 1)"
  proof (rule impI)
    assume y: "yen_k2_paths fuel s t st = Some (st'', ps)"
    from y have g: "graph_of st'' = graph_of st"
    proof (cases rule: yen_cases)
      case (unreachable st1)
      then show ?thesis using ecodijkstra_frame [of fuel s t st st1] by (simp add: same_graph_def)
    next
      case (found st1 bp st2 cands)
      from ecodijkstra_frame [OF found(1)] spur_loop_frame [OF found(4)]
      have "same_graph st st2" using same_graph_trans by blast
      then show ?thesis using found(5) by (simp add: same_graph_def graph_of_def)
    qed
    have k: "skip_u st'' = - 1 \<and> skip_v st'' = - 1"
      if c: "ps \<noteq> [] \<or> (skip_u st = - 1 \<and> skip_v st = - 1)"
      using y
    proof (cases rule: yen_cases)
      case (unreachable st1)
      then show ?thesis using ecodijkstra_frame [of fuel s t st st1] c by (simp add: same_skip_def)
    next
      case (found st1 bp st2 cands)
      then show ?thesis by simp
    qed
    from g k show "graph_of st'' = graph_of st \<and>
      (ps \<noteq> [] \<or> (skip_u st = - 1 \<and> skip_v st = - 1) \<longrightarrow> skip_u st'' = - 1 \<and> skip_v st'' = - 1)"
      by blast
  qed
qed

section \<open>adb[1].h: well-formed adjacency lists\<close>

text \<open>
  The records are linked from newer to older: a graph that \<^verbatim>\<open>add_edge\<close> built has
  \<open>nxt e < e\<close> for every record, every \<^verbatim>\<open>head\<close> below \<^verbatim>\<open>E\<close>, and every target below \<^verbatim>\<open>V\<close>.
\<close>

definition link_ok :: "nat \<Rightarrow> int \<Rightarrow> bool" where
  "link_ok bound b \<longleftrightarrow> b = - 1 \<or> (0 \<le> b \<and> nat b < bound)"

definition wf_graph :: "gstate \<Rightarrow> bool" where
  "wf_graph st \<longleftrightarrow>
     (\<forall>u < V st. link_ok (E st) (head st u)) \<and>
     (\<forall>e < E st. link_ok e (nxt st e) \<and> to st e < V st)"

text \<open>The records of node \<open>u\<close>, newest first, and the neighbours they name.\<close>

definition adj :: "gstate \<Rightarrow> nat \<Rightarrow> nat list" where
  "adj st u = (case chain_from (E st) (nxt st) (head st u) of None \<Rightarrow> [] | Some es \<Rightarrow> es)"

definition adj_to :: "gstate \<Rightarrow> nat \<Rightarrow> nat list" where
  "adj_to st u = map (to st) (adj st u)"

lemma chain_from_mono:
  "chain_from room next b = Some es \<Longrightarrow> room \<le> room' \<Longrightarrow> chain_from room' next b = Some es"
proof (induction room arbitrary: room' b es)
  case 0
  then show ?case by (cases room') (auto split: if_splits)
next
  case (Suc room)
  then obtain r where r: "room' = Suc r" "room \<le> r" by (cases room') auto
  show ?case
  proof (cases "b = - 1")
    case True
    then show ?thesis using Suc.prems r by simp
  next
    case False
    then obtain bs where b: "0 \<le> b" "chain_from room next (next (nat b)) = Some bs" "es = nat b # bs"
      using Suc.prems(1) by (auto split: if_splits option.splits)
    from Suc.IH [OF b(2) r(2)] show ?thesis using False b r by simp
  qed
qed

lemma chain_from_cong:
  "chain_from room next b = Some es \<Longrightarrow> \<forall>e \<in> set es. next' e = next e \<Longrightarrow>
   chain_from room next' b = Some es"
proof (induction room arbitrary: b es)
  case 0
  then show ?case by (auto split: if_splits)
next
  case (Suc room)
  show ?case
  proof (cases "b = - 1")
    case True
    then show ?thesis using Suc.prems by simp
  next
    case False
    then obtain bs where b: "0 \<le> b" "chain_from room next (next (nat b)) = Some bs" "es = nat b # bs"
      using Suc.prems(1) by (auto split: if_splits option.splits)
    have "\<forall>e \<in> set bs. next' e = next e" "next' (nat b) = next (nat b)"
      using Suc.prems(2) b(3) by simp_all
    with Suc.IH [OF b(2)] show ?thesis using False b by simp
  qed
qed

lemma chain_from_exists:
  assumes "\<forall>e < bound. link_ok e (next e)"
  shows "link_ok (min room bound) b \<Longrightarrow>
         \<exists>es. chain_from room next b = Some es \<and> (\<forall>e \<in> set es. int e \<le> b) \<and> distinct es"
proof (induction room arbitrary: b)
  case 0
  then show ?case by (simp add: link_ok_def)
next
  case (Suc room)
  show ?case
  proof (cases "b = - 1")
    case True
    then show ?thesis by simp
  next
    case False
    then have b: "0 \<le> b" "nat b < Suc room" "nat b < bound"
      using Suc.prems by (simp_all add: link_ok_def)
    then have "link_ok (nat b) (next (nat b))" using assms by simp
    then have "link_ok (min room bound) (next (nat b))"
      using b by (auto simp: link_ok_def)
    from Suc.IH [OF this] obtain bs where
      bs: "chain_from room next (next (nat b)) = Some bs" "\<forall>e \<in> set bs. int e \<le> next (nat b)"
          "distinct bs"
      by blast
    have lt: "next (nat b) < b"
      using \<open>link_ok (nat b) (next (nat b))\<close> b(1) by (auto simp: link_ok_def)
    have "\<forall>e \<in> set bs. int e < b" using bs(2) lt by fastforce
    have "nat b \<notin> set bs"
    proof
      assume "nat b \<in> set bs"
      then have "int (nat b) < b" using \<open>\<forall>e \<in> set bs. int e < b\<close> by blast
      then show False using b(1) by simp
    qed
    moreover have "\<forall>e \<in> set (nat b # bs). int e \<le> b"
      using \<open>\<forall>e \<in> set bs. int e < b\<close> b(1) by (simp add: less_imp_le)
    ultimately have "nat b \<notin> set bs" "\<forall>e \<in> set (nat b # bs). int e \<le> b" by blast+
    then show ?thesis using False b(1) bs by simp
  qed
qed

lemma adj_chain:
  assumes "wf_graph st" "u < V st" "E st \<le> fuel"
  shows "chain_from fuel (nxt st) (head st u) = Some (adj st u)"
    and "\<forall>e \<in> set (adj st u). e < E st \<and> to st e < V st"
    and "distinct (adj st u)"
proof -
  have n: "\<forall>e < E st. link_ok e (nxt st e)" using assms(1) by (simp add: wf_graph_def)
  have h: "link_ok (min (E st) (E st)) (head st u)" using assms(1,2) by (simp add: wf_graph_def)
  from chain_from_exists [OF n h] obtain es where
    es: "chain_from (E st) (nxt st) (head st u) = Some es" "\<forall>e \<in> set es. int e \<le> head st u"
        "distinct es"
    by blast
  have a: "adj st u = es" using es(1) by (simp add: adj_def)
  show "chain_from fuel (nxt st) (head st u) = Some (adj st u)"
    using chain_from_mono [OF es(1) assms(3)] a by simp
  have "link_ok (E st) (head st u)" using assms(1,2) by (simp add: wf_graph_def)
  then have "\<forall>e \<in> set es. e < E st" using es(2) by (fastforce simp: link_ok_def)
  then show "\<forall>e \<in> set (adj st u). e < E st \<and> to st e < V st"
    using a assms(1) by (simp add: wf_graph_def)
  show "distinct (adj st u)" using a es(3) by simp
qed

subsection \<open>The relaxation loop is a fold over the records of the node\<close>

lemma relax_nxt: "nxt (relax sk u e st) = nxt st"
  by (simp add: relax_def Let_def)

lemma fold_relax_nxt: "nxt (fold (relax sk u) es st) = nxt st"
  by (induction es arbitrary: st) (simp_all add: relax_nxt)

lemma relax_loop_fold:
  "chain_from fuel (nxt st) e = Some es \<Longrightarrow> relax_loop fuel sk u e st = Some (fold (relax sk u) es st)"
proof (induction fuel arbitrary: e es st)
  case 0
  then show ?case by (auto split: if_splits)
next
  case (Suc fuel)
  show ?case
  proof (cases "e = - 1")
    case True
    then show ?thesis using Suc.prems by simp
  next
    case False
    then obtain bs where b: "0 \<le> e" "chain_from fuel (nxt st) (nxt st (nat e)) = Some bs"
        "es = nat e # bs"
      using Suc.prems(1) by (auto split: if_splits option.splits)
    have "chain_from fuel (nxt (relax sk u (nat e) st)) (nxt st (nat e)) = Some bs"
      using b(2) by (simp add: relax_nxt)
    from Suc.IH [OF this] show ?thesis using False b by simp
  qed
qed

lemma relax_loop_adj:
  assumes "wf_graph st" "u < V st" "E st \<le> fuel"
  shows "relax_loop fuel sk u (head st u) st = Some (fold (relax sk u) (adj st u) st)"
  using relax_loop_fold [OF adj_chain(1) [OF assms]] .

section \<open>adb[1].h: what \<^verbatim>\<open>build_knn_fixed\<close> builds\<close>

lemma push_edge_fields:
  "V (push_edge a b ww st) = V st" "E (push_edge a b ww st) = E st + 1"
  "hav (push_edge a b ww st) = hav st"
  "to (push_edge a b ww st) = (to st)(E st := b)"
  "w (push_edge a b ww st) = (w st)(E st := ww)"
  "nxt (push_edge a b ww st) = (nxt st)(E st := head st a)"
  "head (push_edge a b ww st) = (head st)(a := int (E st))"
  by (simp_all add: push_edge_def)

lemma push_edge_wf:
  assumes "wf_graph st" "a < V st" "b < V st"
  shows "wf_graph (push_edge a b ww st)"
proof -
  have h: "\<forall>u < V st. link_ok (E st) (head st u)"
    and n: "\<forall>e < E st. link_ok e (nxt st e) \<and> to st e < V st"
    using assms(1) by (simp_all add: wf_graph_def)
  have up: "link_ok (Suc k) x" if "link_ok k x" for k x
    using that by (auto simp: link_ok_def)
  show ?thesis
    unfolding wf_graph_def push_edge_fields
  proof (intro conjI allI impI)
    fix u assume "u < V st"
    then show "link_ok (E st + 1) (((head st)(a := int (E st))) u)"
      using h up by (auto simp: link_ok_def)
  next
    fix e assume "e < E st + 1"
    then show "link_ok e (((nxt st)(E st := head st a)) e)"
      using h n assms(2) by (cases "e = E st") auto
  next
    fix e assume "e < E st + 1"
    then show "((to st)(E st := b)) e < V st"
      using n assms(3) by (cases "e = E st") auto
  qed
qed

lemma push_edge_adj:
  assumes "wf_graph st" "a < V st" "b < V st" "x < V st"
  shows "adj (push_edge a b ww st) x = (if x = a then E st # adj st a else adj st x)"
proof -
  let ?st = "push_edge a b ww st"
  note c = adj_chain [OF assms(1), of _ "E st + 1"]
  have old: "chain_from (E st + 1) (nxt ?st) (head st y) = Some (adj st y)" if "y < V st" for y
  proof -
    have "\<forall>e \<in> set (adj st y). nxt ?st e = nxt st e"
      using c(2) [OF that] by (auto simp: push_edge_fields)
    then show ?thesis using chain_from_cong [OF c(1) [OF that]] by simp
  qed
  show ?thesis
  proof (cases "x = a")
    case True
    have "chain_from (Suc (E st)) (nxt ?st) (int (E st)) =
            (case chain_from (E st) (nxt ?st) (head st a) of None \<Rightarrow> None
             | Some bs \<Rightarrow> Some (E st # bs))"
      by (simp add: push_edge_fields split: option.splits)
    moreover have "chain_from (E st) (nxt ?st) (head st a) = Some (adj st a)"
    proof -
      have "\<forall>e \<in> set (adj st a). nxt ?st e = nxt st e"
        using adj_chain(2) [OF assms(1,2), of "E st"] by (auto simp: push_edge_fields)
      then show ?thesis
        using chain_from_cong [OF adj_chain(1) [OF assms(1,2), of "E st"]] by simp
    qed
    ultimately have "chain_from (E ?st) (nxt ?st) (head ?st a) = Some (E st # adj st a)"
      by (simp add: push_edge_fields)
    then show ?thesis using True by (simp add: adj_def)
  next
    case False
    have "chain_from (E ?st) (nxt ?st) (head ?st x) = Some (adj st x)"
      using old [OF assms(4)] False by (simp add: push_edge_fields)
    then show ?thesis using False by (simp add: adj_def)
  qed
qed

lemma push_edge_old_records:
  assumes "wf_graph st" "x < V st" "e \<in> set (adj st x)"
  shows "to (push_edge a b ww st) e = to st e" "w (push_edge a b ww st) e = w st e"
  using adj_chain(2) [OF assms(1,2), of "E st"] assms(3) by (auto simp: push_edge_fields)

text \<open>The targets and weights of the records of a node, as a list of pairs.\<close>

definition out_edges :: "gstate \<Rightarrow> nat \<Rightarrow> (nat \<times> real) list" where
  "out_edges st u = map (\<lambda>e. (to st e, w st e)) (adj st u)"

lemma push_edge_out:
  assumes "wf_graph st" "a < V st" "b < V st" "x < V st"
  shows "out_edges (push_edge a b ww st) x = (if x = a then (b, ww) # out_edges st a else out_edges st x)"
proof -
  have same: "map (\<lambda>e. (to (push_edge a b ww st) e, w (push_edge a b ww st) e)) (adj st y) =
              map (\<lambda>e. (to st e, w st e)) (adj st y)" if "y < V st" for y
    using push_edge_old_records [OF assms(1) that] by simp
  show ?thesis
    unfolding out_edges_def push_edge_adj [OF assms]
    using same [OF assms(2)] same [OF assms(4)] by (simp add: push_edge_fields)
qed

lemma add_edge_cases:
  assumes "add_edge (int a) (int b) ww st = Inr st'"
  shows "(st' = st \<and> (a \<ge> V st \<or> b \<ge> V st \<or> a = b)) \<or>
         (a < V st \<and> b < V st \<and> a \<noteq> b \<and> st' = push_edge b a ww (push_edge a b ww st))"
  using assms by (auto simp: add_edge_def split: if_splits)

lemma add_edge_wf:
  assumes "add_edge (int a) (int b) ww st = Inr st'" "wf_graph st"
  shows "wf_graph st'" "V st' = V st" "hav st' = hav st"
  using add_edge_cases [OF assms(1)] assms(2)
  by (auto simp: push_edge_wf push_edge_fields)

lemma add_edge_out:
  assumes "add_edge (int a) (int b) ww st = Inr st'" "wf_graph st" "a < V st" "b < V st" "a \<noteq> b"
      and "x < V st"
  shows "out_edges st' x =
           (if x = a then (b, ww) # out_edges st a
            else if x = b then (a, ww) # out_edges st b
            else out_edges st x)"
proof -
  let ?st1 = "push_edge a b ww st"
  have st': "st' = push_edge b a ww ?st1"
    using add_edge_cases [OF assms(1)] assms(3,4,5) by auto
  have wf1: "wf_graph ?st1" using push_edge_wf [OF assms(2,3,4)] .
  have v1: "V ?st1 = V st" by (simp add: push_edge_fields)
  show ?thesis
    unfolding st'
    using push_edge_out [OF wf1, of b a x ww] push_edge_out [OF assms(2,3,4), of x ww]
      push_edge_out [OF assms(2,3,4), of b ww] assms(3,4,5,6) v1
    by auto
qed

subsection \<open>The selection of the nearest nodes\<close>

lemma least_from_fold_bounds:
  assumes "\<forall>j \<in> set js. j < m" "mi < m"
  shows "fold (\<lambda>j mi. if dists ! j < dists ! mi then j else mi) js mi < m"
  using assms by (induction js arbitrary: mi) auto

lemma least_from_bound: "i < length dists \<Longrightarrow> least_from dists i < length dists"
  unfolding least_from_def by (rule least_from_fold_bounds) auto

lemma swap_at_props:
  assumes "i < length xs" "j < length xs"
  shows "length (swap_at xs i j) = length xs" "set (swap_at xs i j) = set xs"
    "distinct (swap_at xs i j) = distinct xs"
  using assms by (simp_all add: swap_at_def set_swap distinct_swap)

lemma select_fold:
  assumes "\<forall>i \<in> set js. i < m" "length dists = m" "length idx = m"
  shows "length (fst (fold select_step js (dists, idx))) = m \<and>
         length (snd (fold select_step js (dists, idx))) = m \<and>
         set (snd (fold select_step js (dists, idx))) = set idx \<and>
         distinct (snd (fold select_step js (dists, idx))) = distinct idx"
  using assms
proof (induction js arbitrary: dists idx)
  case Nil
  then show ?case by simp
next
  case (Cons i js)
  let ?mi = "least_from dists i"
  have i: "i < length dists" "i < length idx" using Cons.prems by simp_all
  have mi: "?mi < length dists" "?mi < length idx"
    using least_from_bound [OF i(1)] Cons.prems by simp_all
  have s: "select_step i (dists, idx) = (swap_at dists i ?mi, swap_at idx i ?mi)"
    by (simp add: select_step_def Let_def)
  have "length (swap_at dists i ?mi) = m" "length (swap_at idx i ?mi) = m"
    using swap_at_props(1) [OF i(1) mi(1)] swap_at_props(1) [OF i(2) mi(2)] Cons.prems by simp_all
  from Cons.IH [OF _ this] Cons.prems(1)
  show ?case
    unfolding fold_Cons comp_def s
    using swap_at_props(2,3) [OF i(2) mi(2)] by simp
qed

lemma nearest_props: "distinct (nearest st k u)" "\<forall>b \<in> set (nearest st k u). b < V st"
proof -
  let ?d = "map (\<lambda>b. if u = b then INF_val else hav st u b) [0..<V st]"
  let ?sel = "fold select_step [0..<min k (V st)] (?d, [0..<V st])"
  have "\<forall>i \<in> set [0..<min k (V st)]. i < V st" by simp
  from select_fold [OF this, of ?d "[0..<V st]"]
  have s: "set (snd ?sel) = set [0..<V st]" "distinct (snd ?sel)" by simp_all
  have n: "nearest st k u = take (min k (V st)) (snd ?sel)"
    by (simp add: nearest_def Let_def)
  show "distinct (nearest st k u)" unfolding n using s(2) by simp
  show "\<forall>b \<in> set (nearest st k u). b < V st"
    unfolding n using s(1) by (metis atLeastLessThan_iff in_set_takeD set_upt)
qed


subsection \<open>Invariants of the two loops\<close>

definition no_self_loops :: "gstate \<Rightarrow> bool" where
  "no_self_loops st \<longleftrightarrow> (\<forall>u < V st. u \<notin> set (adj_to st u))"

text \<open>Every record of \<open>u\<close> carries the distance between \<open>u\<close> and its target.\<close>

definition weights_ok :: "gstate \<Rightarrow> bool" where
  "weights_ok st \<longleftrightarrow> (\<forall>u < V st. \<forall>e \<in> set (adj st u). w st e = hav st u (to st e))"

definition hav_sym :: "gstate \<Rightarrow> bool" where
  "hav_sym st \<longleftrightarrow> (\<forall>i j. hav st i j = hav st j i)"

lemma adj_to_out: "adj_to st u = map fst (out_edges st u)"
  by (simp add: adj_to_def out_edges_def comp_def)

lemma weights_ok_out:
  "weights_ok st \<longleftrightarrow> (\<forall>u < V st. \<forall>p \<in> set (out_edges st u). snd p = hav st u (fst p))"
  by (auto simp: weights_ok_def out_edges_def)

lemma add_edge_invs:
  assumes a: "add_edge (int u) (int b) (hav st u b) st = Inr st'" and wf: "wf_graph st"
      and ub: "u < V st" "b < V st" "u \<noteq> b"
  shows "no_self_loops st \<Longrightarrow> no_self_loops st'"
    and "hav_sym st \<Longrightarrow> weights_ok st \<Longrightarrow> weights_ok st'"
    and "\<forall>x < V st. \<forall>y. count_list (adj_to st' x) y =
            count_list (adj_to st x) y + (if (x = u \<and> y = b) \<or> (x = b \<and> y = u) then 1 else 0)"
proof -
  note o = add_edge_out [OF a wf ub]
  note f = add_edge_wf [OF a wf]
  show "no_self_loops st'" if "no_self_loops st"
    using that ub o unfolding no_self_loops_def adj_to_out f by auto
  show "weights_ok st'" if "hav_sym st" "weights_ok st"
    using that ub o unfolding weights_ok_out hav_sym_def f by auto
  show "\<forall>x < V st. \<forall>y. count_list (adj_to st' x) y =
            count_list (adj_to st x) y + (if (x = u \<and> y = b) \<or> (x = b \<and> y = u) then 1 else 0)"
    using ub o unfolding adj_to_out by auto
qed

lemma add_edges_invs:
  assumes "add_edges u bs st = Inr st'" "wf_graph st" "u < V st" "\<forall>b \<in> set bs. b < V st"
      "distinct bs"
  shows "wf_graph st' \<and> V st' = V st \<and> hav st' = hav st \<and>
         (no_self_loops st \<longrightarrow> no_self_loops st') \<and>
         (hav_sym st \<and> weights_ok st \<longrightarrow> weights_ok st') \<and>
         (\<forall>x < V st. \<forall>y. count_list (adj_to st' x) y \<le>
            count_list (adj_to st x) y +
              (if (x = u \<and> y \<in> set bs) \<or> (y = u \<and> x \<in> set bs) then 1 else 0))"
  using assms
proof (induction bs arbitrary: st)
  case Nil
  then show ?case by simp
next
  case (Cons b bs)
  show ?case
  proof (cases "b = u")
    case True
    then have r: "add_edges u bs st = Inr st'" using Cons.prems(1) by simp
    from Cons.IH [OF r Cons.prems(2,3)] Cons.prems(4,5)
    have ih: "wf_graph st' \<and> V st' = V st \<and> hav st' = hav st \<and>
         (no_self_loops st \<longrightarrow> no_self_loops st') \<and>
         (hav_sym st \<and> weights_ok st \<longrightarrow> weights_ok st') \<and>
         (\<forall>x < V st. \<forall>y. count_list (adj_to st' x) y \<le>
            count_list (adj_to st x) y +
              (if (x = u \<and> y \<in> set bs) \<or> (y = u \<and> x \<in> set bs) then 1 else 0))"
      by simp
    have "count_list (adj_to st' x) y \<le> count_list (adj_to st x) y +
              (if (x = u \<and> y \<in> set (b # bs)) \<or> (y = u \<and> x \<in> set (b # bs)) then 1 else 0)"
      if "x < V st" for x y
    proof -
      have "count_list (adj_to st' x) y \<le> count_list (adj_to st x) y +
              (if (x = u \<and> y \<in> set bs) \<or> (y = u \<and> x \<in> set bs) then 1 else 0)"
        using ih that by blast
      also have "\<dots> \<le> count_list (adj_to st x) y +
              (if (x = u \<and> y \<in> set (b # bs)) \<or> (y = u \<and> x \<in> set (b # bs)) then 1 else 0)"
        by auto
      finally show ?thesis .
    qed
    then show ?thesis using ih by blast
  next
    case False
    then obtain st1 where
      a: "add_edge (int u) (int b) (hav st u b) st = Inr st1" and
      r: "add_edges u bs st1 = Inr st'"
      using Cons.prems(1) by (auto split: sum.splits)
    have b: "b < V st" "u \<noteq> b" "b \<notin> set bs" using Cons.prems(4,5) False by auto
    note f = add_edge_wf [OF a Cons.prems(2)]
    note i = add_edge_invs [OF a Cons.prems(2,3) b(1,2)]
    have p: "u < V st1" "\<forall>b \<in> set bs. b < V st1" "distinct bs"
      using Cons.prems(3,4,5) f(2) by simp_all
    from Cons.IH [OF r f(1) p]
    have ih: "wf_graph st' \<and> V st' = V st1 \<and> hav st' = hav st1 \<and>
         (no_self_loops st1 \<longrightarrow> no_self_loops st') \<and>
         (hav_sym st1 \<and> weights_ok st1 \<longrightarrow> weights_ok st') \<and>
         (\<forall>x < V st1. \<forall>y. count_list (adj_to st' x) y \<le>
            count_list (adj_to st1 x) y +
              (if (x = u \<and> y \<in> set bs) \<or> (y = u \<and> x \<in> set bs) then 1 else 0))" .
    have hs: "hav_sym st1 = hav_sym st" by (simp add: hav_sym_def f(3))
    have "count_list (adj_to st' x) y \<le> count_list (adj_to st x) y +
              (if (x = u \<and> y \<in> set (b # bs)) \<or> (y = u \<and> x \<in> set (b # bs)) then 1 else 0)"
      if x: "x < V st" for x y
    proof -
      have 1: "count_list (adj_to st' x) y \<le> count_list (adj_to st1 x) y +
              (if (x = u \<and> y \<in> set bs) \<or> (y = u \<and> x \<in> set bs) then 1 else 0)"
        using ih x f(2) by simp
      have 2: "count_list (adj_to st1 x) y =
            count_list (adj_to st x) y + (if (x = u \<and> y = b) \<or> (x = b \<and> y = u) then 1 else 0)"
        using i(3) x by blast
      show ?thesis
        using 1 2 b(2,3) by (auto split: if_splits)
    qed
    then show ?thesis using ih f i(1,2) hs by auto
  qed
qed

lemma knn_loop_invs:
  assumes "knn_loop k us st = Inr st'" "wf_graph st" "\<forall>u \<in> set us. u < V st" "distinct us"
  shows "wf_graph st' \<and> V st' = V st \<and> hav st' = hav st \<and>
         (no_self_loops st \<longrightarrow> no_self_loops st') \<and>
         (hav_sym st \<and> weights_ok st \<longrightarrow> weights_ok st') \<and>
         (\<forall>x < V st. \<forall>y. count_list (adj_to st' x) y \<le>
            count_list (adj_to st x) y +
              (if x \<in> set us then 1 else 0) + (if y \<in> set us then 1 else 0))"
  using assms
proof (induction us arbitrary: st)
  case Nil
  then show ?case by simp
next
  case (Cons u us)
  from Cons.prems(1) obtain st1 where
    a: "add_edges u (nearest st k u) st = Inr st1" and
    r: "knn_loop k us st1 = Inr st'"
    by (auto split: sum.splits)
  have u: "u < V st" "u \<notin> set us" using Cons.prems(3,4) by simp_all
  from add_edges_invs [OF a Cons.prems(2) u(1) nearest_props(2) nearest_props(1)]
  have s1: "wf_graph st1" "V st1 = V st" "hav st1 = hav st"
      "no_self_loops st \<longrightarrow> no_self_loops st1"
      "hav_sym st \<and> weights_ok st \<longrightarrow> weights_ok st1"
      "\<forall>x < V st. \<forall>y. count_list (adj_to st1 x) y \<le>
            count_list (adj_to st x) y +
              (if (x = u \<and> y \<in> set (nearest st k u)) \<or> (y = u \<and> x \<in> set (nearest st k u)) then 1 else 0)"
    by blast+
  have p: "\<forall>u \<in> set us. u < V st1" "distinct us" using Cons.prems(3,4) s1(2) by simp_all
  from Cons.IH [OF r s1(1) p]
  have ih: "wf_graph st'" "V st' = V st1" "hav st' = hav st1"
      "no_self_loops st1 \<longrightarrow> no_self_loops st'"
      "hav_sym st1 \<and> weights_ok st1 \<longrightarrow> weights_ok st'"
      "\<forall>x < V st1. \<forall>y. count_list (adj_to st' x) y \<le>
            count_list (adj_to st1 x) y +
              (if x \<in> set us then 1 else 0) + (if y \<in> set us then 1 else 0)"
    by blast+
  have hs: "hav_sym st1 = hav_sym st" by (simp add: hav_sym_def s1(3))
  have "count_list (adj_to st' x) y \<le> count_list (adj_to st x) y +
              (if x \<in> set (u # us) then 1 else 0) + (if y \<in> set (u # us) then 1 else 0)"
    if x: "x < V st" for x y
  proof -
    have 1: "count_list (adj_to st' x) y \<le> count_list (adj_to st1 x) y +
              (if x \<in> set us then 1 else 0) + (if y \<in> set us then 1 else 0)"
      using ih(6) x s1(2) by simp
    have 2: "count_list (adj_to st1 x) y \<le> count_list (adj_to st x) y +
              (if x = u \<or> y = u then 1 else 0)"
    proof -
      have "count_list (adj_to st1 x) y \<le> count_list (adj_to st x) y +
              (if (x = u \<and> y \<in> set (nearest st k u)) \<or> (y = u \<and> x \<in> set (nearest st k u)) then 1 else 0)"
        using s1(6) x by blast
      also have "\<dots> \<le> count_list (adj_to st x) y + (if x = u \<or> y = u then 1 else 0)" by auto
      finally show ?thesis .
    qed
    show ?thesis using 1 2 u(2) by (auto split: if_splits)
  qed
  then show ?case using ih s1 hs by auto
qed

lemma reset_graph_props:
  "wf_graph (reset_graph st)" "V (reset_graph st) = V st" "hav (reset_graph st) = hav st"
  "adj (reset_graph st) u = []" "no_self_loops (reset_graph st)" "weights_ok (reset_graph st)"
  by (simp_all add: reset_graph_def wf_graph_def link_ok_def adj_def no_self_loops_def
      weights_ok_def adj_to_def)

lemma build_knn_fixed_invs:
  assumes "build_knn_fixed k st0 = Inr st"
  shows "wf_graph st" "V st = V st0" "hav st = hav st0" "no_self_loops st"
    "hav_sym st0 \<Longrightarrow> weights_ok st"
    "\<forall>x < V st. \<forall>y. count_list (adj_to st x) y \<le> 2"
proof -
  let ?r = "reset_graph st0"
  obtain k' where b: "knn_loop k' [0..<V ?r] ?r = Inr st"
    using assms by (auto simp: build_knn_fixed_def Let_def)
  have "\<forall>u \<in> set [0..<V ?r]. u < V ?r" "distinct [0..<V ?r]" by simp_all
  from knn_loop_invs [OF b reset_graph_props(1) this]
  have i: "wf_graph st" "V st = V ?r" "hav st = hav ?r"
      "no_self_loops ?r \<longrightarrow> no_self_loops st"
      "hav_sym ?r \<and> weights_ok ?r \<longrightarrow> weights_ok st"
      "\<forall>x < V ?r. \<forall>y. count_list (adj_to st x) y \<le>
            count_list (adj_to ?r x) y +
              (if x \<in> set [0..<V ?r] then 1 else 0) + (if y \<in> set [0..<V ?r] then 1 else 0)"
    by blast+
  show "wf_graph st" using i(1) .
  show "V st = V st0" using i(2) by (simp add: reset_graph_props)
  show "hav st = hav st0" using i(3) by (simp add: reset_graph_props)
  show "no_self_loops st" using i(4) reset_graph_props(5) by blast
  show "weights_ok st" if "hav_sym st0"
    using i(5) reset_graph_props(6) that by (simp add: hav_sym_def reset_graph_props)
  have "count_list (adj_to st x) y \<le> 2" if "x < V st" for x y
  proof -
    have "count_list (adj_to st x) y \<le> count_list (adj_to ?r x) y +
              (if x \<in> set [0..<V ?r] then 1 else 0) + (if y \<in> set [0..<V ?r] then 1 else 0)"
      using i(6) that i(2) by simp
    also have "\<dots> \<le> 2" by (simp add: adj_to_def reset_graph_props)
    finally show ?thesis .
  qed
  then show "\<forall>x < V st. \<forall>y. count_list (adj_to st x) y \<le> 2" by blast
qed

text \<open>
  C7, as the code has it.  The graph that \<^verbatim>\<open>build_knn_fixed\<close> returns has no record from a node
  to itself, and at most two records for any ordered pair of nodes: \<^verbatim>\<open>add_edge\<close> writes one
  record per direction each time it is called, it is called for \<open>(u, v)\<close> when \<open>u\<close> selects \<open>v\<close>
  and again for \<open>(v, u)\<close> when \<open>v\<close> selects \<open>u\<close>, and nothing removes duplicates.
\<close>

theorem knn_adjacency:
  assumes "build_knn_fixed k st0 = Inr st"
  shows "\<forall>u < V st. u \<notin> set (adj_to st u) \<and> (\<forall>b. count_list (adj_to st u) b \<le> 2)"
  using build_knn_fixed_invs(4,6) [OF assms] by (simp add: no_self_loops_def)

section \<open>adb[1].h: the search tree\<close>

lemma relax_loop_Some:
  "relax_loop fuel sk u e st = Some st' \<Longrightarrow>
   \<exists>es. chain_from fuel (nxt st) e = Some es \<and> st' = fold (relax sk u) es st"
proof (induction fuel arbitrary: e st)
  case 0
  then show ?case by (auto split: if_splits)
next
  case (Suc fuel)
  show ?case
  proof (cases "e = - 1")
    case True
    then show ?thesis using Suc.prems by simp
  next
    case False
    then have e: "0 \<le> e" and
      r: "relax_loop fuel sk u (nxt st (nat e)) (relax sk u (nat e) st) = Some st'"
      using Suc.prems by (auto split: if_splits)
    from Suc.IH [OF r] obtain es where
      es: "chain_from fuel (nxt st) (nxt st (nat e)) = Some es"
          "st' = fold (relax sk u) es (relax sk u (nat e) st)"
      by (auto simp: relax_nxt)
    then show ?thesis using False e by simp
  qed
qed

lemma relax_loop_is_fold:
  assumes "relax_loop fuel sk u (head st u) st = Some st'" "wf_graph st" "u < V st"
  shows "st' = fold (relax sk u) (adj st u) st"
proof -
  from relax_loop_Some [OF assms(1)] obtain es where
    es: "chain_from fuel (nxt st) (head st u) = Some es" "st' = fold (relax sk u) es st"
    by blast
  have "chain_from (max fuel (E st)) (nxt st) (head st u) = Some es"
    using chain_from_mono [OF es(1)] by simp
  moreover have "chain_from (max fuel (E st)) (nxt st) (head st u) = Some (adj st u)"
    using adj_chain(1) [OF assms(2,3)] by simp
  ultimately show ?thesis using es(2) by simp
qed

subsection \<open>The scan for the nearest unused node\<close>

lemma minQ_fold:
  assumes "\<forall>i \<in> set js. i < m"
      and "(snd bb = - 1 \<and> fst bb = INF_val) \<or>
           (0 \<le> snd bb \<and> nat (snd bb) < m \<and> \<not> used st (nat (snd bb)) \<and>
            fst bb = distv st (nat (snd bb)) \<and> fst bb < INF_val)"
  shows "((snd (fold (minQ_step st) js bb) = - 1 \<and> fst (fold (minQ_step st) js bb) = INF_val) \<or>
          (0 \<le> snd (fold (minQ_step st) js bb) \<and> nat (snd (fold (minQ_step st) js bb)) < m \<and>
           \<not> used st (nat (snd (fold (minQ_step st) js bb))) \<and>
           fst (fold (minQ_step st) js bb) = distv st (nat (snd (fold (minQ_step st) js bb))) \<and>
           fst (fold (minQ_step st) js bb) < INF_val)) \<and>
         fst (fold (minQ_step st) js bb) \<le> fst bb \<and>
         (\<forall>i \<in> set js. \<not> used st i \<longrightarrow> fst (fold (minQ_step st) js bb) \<le> distv st i)"
  using assms
proof (induction js arbitrary: bb)
  case Nil
  then show ?case by simp
next
  case (Cons i js)
  let ?b = "minQ_step st i bb"
  have 1: "\<forall>i \<in> set js. i < m" using Cons.prems(1) by simp
  have i: "i < m" using Cons.prems(1) by simp
  have 2: "(snd ?b = - 1 \<and> fst ?b = INF_val) \<or>
           (0 \<le> snd ?b \<and> nat (snd ?b) < m \<and> \<not> used st (nat (snd ?b)) \<and>
            fst ?b = distv st (nat (snd ?b)) \<and> fst ?b < INF_val)"
    using Cons.prems(2) i by (auto simp: minQ_step_def)
  have 3: "fst ?b \<le> fst bb" "\<not> used st i \<longrightarrow> fst ?b \<le> distv st i"
    by (auto simp: minQ_step_def)
  from Cons.IH [OF 1 2] 3 show ?case by fastforce
qed

lemma minQ_props:
  shows "minQ st = - 1 \<Longrightarrow> \<forall>i < V st. \<not> used st i \<longrightarrow> INF_val \<le> distv st i"
    and "minQ st \<noteq> - 1 \<Longrightarrow>
           0 \<le> minQ st \<and> nat (minQ st) < V st \<and> \<not> used st (nat (minQ st)) \<and>
           distv st (nat (minQ st)) < INF_val \<and>
           (\<forall>i < V st. \<not> used st i \<longrightarrow> distv st (nat (minQ st)) \<le> distv st i)"
proof -
  note f = minQ_fold [of "[0..<V st]" "V st" "(INF_val, - 1)" st, simplified]
  show "\<forall>i < V st. \<not> used st i \<longrightarrow> INF_val \<le> distv st i" if "minQ st = - 1"
    using f that unfolding minQ_def by auto
  show "0 \<le> minQ st \<and> nat (minQ st) < V st \<and> \<not> used st (nat (minQ st)) \<and>
           distv st (nat (minQ st)) < INF_val \<and>
           (\<forall>i < V st. \<not> used st i \<longrightarrow> distv st (nat (minQ st)) \<le> distv st i)"
    if "minQ st \<noteq> - 1"
    using f that unfolding minQ_def by auto
qed

subsection \<open>Structure of the parent pointers\<close>

text \<open>
  Facts about the arrays of a search from \<open>s\<close> that hold whatever the weights are: a parent is a
  used node, it was not reached over the excluded edge, and a node has a finite distance only if
  it is the source or has a parent.
\<close>

definition tree_inv :: "bool \<Rightarrow> nat \<Rightarrow> gstate \<Rightarrow> bool" where
  "tree_inv sk s st \<longleftrightarrow>
     (\<forall>b < V st. parent st b \<noteq> - 1 \<longrightarrow>
        0 \<le> parent st b \<and> nat (parent st b) < V st \<and> used st (nat (parent st b)) \<and>
        (sk \<longrightarrow> \<not> is_skipped st (nat (parent st b)) b)) \<and>
     (\<forall>b < V st. used st b \<longrightarrow> distv st b < INF_val) \<and>
     (\<forall>b < V st. parent st b = - 1 \<and> b \<noteq> s \<longrightarrow> INF_val \<le> distv st b)"

lemma tree_inv_init: "s < V st \<Longrightarrow> tree_inv sk s (init_search s st)"
  by (simp add: tree_inv_def init_search_def)

lemma tree_inv_mark:
  assumes "tree_inv sk s st" "distv st u < INF_val"
  shows "tree_inv sk s (st\<lparr>used := (used st)(u := True)\<rparr>)"
  using assms by (auto simp: tree_inv_def is_skipped_def)

lemma relax_fields:
  "V (relax sk u e st) = V st" "used (relax sk u e st) = used st"
  "skip_u (relax sk u e st) = skip_u st" "skip_v (relax sk u e st) = skip_v st"
  "to (relax sk u e st) = to st" "w (relax sk u e st) = w st" "hav (relax sk u e st) = hav st"
  by (simp_all add: relax_def Let_def)

lemma is_skipped_relax: "is_skipped (relax sk u e st) a b = is_skipped st a b"
  by (simp add: is_skipped_def relax_fields)

lemma tree_inv_relax:
  assumes inv: "tree_inv sk s st" and u: "u < V st" "used st u" and e: "to st e < V st"
  shows "tree_inv sk s (relax sk u e st)"
proof (cases "sk \<and> is_skipped st u (to st e)")
  case True
  then show ?thesis using inv by (simp add: relax_def)
next
  case False
  show ?thesis
  proof (cases "distv st u + w st e < distv st (to st e)")
    case c: False
    then show ?thesis using inv False by (auto simp: relax_def Let_def)
  next
    case c: True
    let ?b = "to st e"
    let ?st = "st\<lparr>distv := (distv st)(?b := distv st u + w st e), parent := (parent st)(?b := int u)\<rparr>"
    have r: "relax sk u e st = ?st" using False c by (auto simp: relax_def Let_def)
    have sk: "is_skipped ?st a b = is_skipped st a b" for a b by (simp add: is_skipped_def)
    have p1: "\<forall>b < V st. parent st b \<noteq> - 1 \<longrightarrow>
        0 \<le> parent st b \<and> nat (parent st b) < V st \<and> used st (nat (parent st b)) \<and>
        (sk \<longrightarrow> \<not> is_skipped st (nat (parent st b)) b)"
      and p2: "\<forall>b < V st. used st b \<longrightarrow> distv st b < INF_val"
      and p3: "\<forall>b < V st. parent st b = - 1 \<and> b \<noteq> s \<longrightarrow> INF_val \<le> distv st b"
      using inv by (simp_all add: tree_inv_def)
    have lt: "distv st u + w st e < INF_val" if "used st ?b"
      using c p2 e that by fastforce
    show ?thesis
      unfolding r tree_inv_def sk
    proof (intro conjI allI impI)
      fix b assume b: "b < V ?st" "parent ?st b \<noteq> - 1"
      show "0 \<le> parent ?st b" using b p1 by (cases "b = ?b") auto
      show "nat (parent ?st b) < V ?st" using b p1 u by (cases "b = ?b") auto
      show "used ?st (nat (parent ?st b))" using b p1 u by (cases "b = ?b") auto
      show "\<not> is_skipped st (nat (parent ?st b)) b" if "sk"
        using b p1 that False by (cases "b = ?b") auto
    next
      fix b assume b: "b < V ?st" "used ?st b"
      show "distv ?st b < INF_val" using b p2 lt by (cases "b = ?b") auto
    next
      fix b assume b: "b < V ?st" "parent ?st b = - 1 \<and> b \<noteq> s"
      show "INF_val \<le> distv ?st b" using b p3 by (cases "b = ?b") auto
    qed
  qed
qed

lemma fold_relax_fields:
  "V (fold (relax sk u) es st) = V st" "used (fold (relax sk u) es st) = used st"
  "to (fold (relax sk u) es st) = to st"
  by (induction es arbitrary: st) (simp_all add: relax_fields)

lemma tree_inv_fold:
  assumes "tree_inv sk s st" "u < V st" "used st u" "\<forall>e \<in> set es. to st e < V st"
  shows "tree_inv sk s (fold (relax sk u) es st)"
  using assms
proof (induction es arbitrary: st)
  case Nil
  then show ?case by simp
next
  case (Cons e es)
  have "tree_inv sk s (relax sk u e st)"
    using tree_inv_relax [OF Cons.prems(1,2,3)] Cons.prems(4) by simp
  from Cons.IH [OF this] Cons.prems(2,3,4) show ?case by (simp add: relax_fields)
qed

lemma wf_graph_cong:
  "same_graph st st' \<Longrightarrow> wf_graph st' = wf_graph st"
  by (simp add: same_graph_def graph_of_def wf_graph_def)

lemma adj_cong: "same_graph st st' \<Longrightarrow> adj st' u = adj st u"
  by (simp add: same_graph_def graph_of_def adj_def)

lemma dijk_loop_tree:
  assumes "dijk_loop fuel rounds sk t st = Some st'" "wf_graph st" "tree_inv sk s st"
  shows "tree_inv sk s st'"
  using assms
proof (induction rounds arbitrary: st)
  case 0
  then show ?case by simp
next
  case (Suc rounds)
  let ?u = "minQ st"
  let ?st1 = "st\<lparr>used := (used st)(nat ?u := True)\<rparr>"
  show ?case
  proof (cases "?u = - 1")
    case True
    then show ?thesis using Suc.prems by simp
  next
    case nu: False
    note m = minQ_props(2) [OF nu]
    have t1: "tree_inv sk s ?st1" using tree_inv_mark [OF Suc.prems(3)] m by blast
    show ?thesis
    proof (cases "?u = int t")
      case True
      then have "st' = ?st1" using Suc.prems(1) nu by (simp add: Let_def)
      then show ?thesis using t1 by simp
    next
      case False
      then obtain st2 where
        r: "relax_loop fuel sk (nat ?u) (head ?st1 (nat ?u)) ?st1 = Some st2" and
        d: "dijk_loop fuel rounds sk t st2 = Some st'"
        using Suc.prems(1) nu by (auto simp: Let_def split: option.splits)
      have sg: "same_graph st ?st1" by (simp add: same_graph_def graph_of_def)
      have wf1: "wf_graph ?st1" using Suc.prems(2) wf_graph_cong [OF sg] by simp
      have u1: "nat ?u < V ?st1" "used ?st1 (nat ?u)" using m by simp_all
      have st2: "st2 = fold (relax sk (nat ?u)) (adj ?st1 (nat ?u)) ?st1"
        using relax_loop_is_fold [OF r wf1 u1(1)] .
      have "\<forall>e \<in> set (adj ?st1 (nat ?u)). to ?st1 e < V ?st1"
        using adj_chain(2) [OF wf1 u1(1), of "E ?st1"] by simp
      from tree_inv_fold [OF t1 u1 this] have t2: "tree_inv sk s st2" using st2 by simp
      have wf2: "wf_graph st2"
        using relax_loop_frame [OF r] wf_graph_cong wf1 by blast
      show ?thesis using Suc.IH [OF d wf2 t2] .
    qed
  qed
qed

lemma search_tree:
  assumes "wf_graph st" "s < V st"
  shows "ecodijkstra fuel s t st = Some st' \<Longrightarrow> tree_inv False s st'"
    and "dijkstra_skip_edge fuel s t st = Some st' \<Longrightarrow> tree_inv True s st'"
proof -
  have sg: "same_graph st (init_search s st)" using init_search_frame by blast
  have wf: "wf_graph (init_search s st)" using assms(1) wf_graph_cong [OF sg] by simp
  have v: "s < V st" using assms(2) .
  show "tree_inv False s st'" if "ecodijkstra fuel s t st = Some st'"
    using dijk_loop_tree [OF _ wf tree_inv_init [OF v]] that by (simp add: ecodijkstra_def)
  show "tree_inv True s st'" if "dijkstra_skip_edge fuel s t st = Some st'"
    using dijk_loop_tree [OF _ wf tree_inv_init [OF v]] that by (simp add: dijkstra_skip_edge_def)
qed

subsection \<open>Reading a path off the parent pointers\<close>

fun is_chain :: "(nat \<Rightarrow> int) \<Rightarrow> int \<Rightarrow> nat list \<Rightarrow> bool" where
  "is_chain next b [] \<longleftrightarrow> b = - 1"
| "is_chain next b (x # xs) \<longleftrightarrow> b = int x \<and> is_chain next (next x) xs"

lemma chain_from_is_chain: "chain_from room next b = Some es \<Longrightarrow> is_chain next b es"
proof (induction room arbitrary: b es)
  case 0
  then show ?case by (auto split: if_splits)
next
  case (Suc room)
  show ?case
  proof (cases "b = - 1")
    case True
    then show ?thesis using Suc.prems by simp
  next
    case False
    then obtain bs where b: "0 \<le> b" "chain_from room next (next (nat b)) = Some bs" "es = nat b # bs"
      using Suc.prems(1) by (auto split: if_splits option.splits)
    from Suc.IH [OF b(2)] show ?thesis using b by simp
  qed
qed

lemma is_chain_links:
  "is_chain next b es \<Longrightarrow> i + 1 < length es \<Longrightarrow> next (es ! i) = int (es ! (i + 1))"
proof (induction es arbitrary: b i)
  case Nil
  then show ?case by simp
next
  case (Cons x xs)
  show ?case
  proof (cases i)
    case 0
    then show ?thesis using Cons.prems by (cases xs) auto
  next
    case (Suc j)
    then show ?thesis using Cons.IH [of "next x" j] Cons.prems by simp
  qed
qed

lemma tree_chain:
  assumes "tree_inv sk s st"
  shows "is_chain (parent st) (int b) es \<Longrightarrow> b < V st \<Longrightarrow> distv st b < INF_val \<Longrightarrow>
         es \<noteq> [] \<and> hd es = b \<and> last es = s \<and> (\<forall>x \<in> set es. x < V st)"
proof (induction es arbitrary: b)
  case Nil
  then show ?case by simp
next
  case (Cons x xs)
  have x: "x = b" and c: "is_chain (parent st) (parent st b) xs" using Cons.prems(1) by simp_all
  show ?case
  proof (cases "parent st b = - 1")
    case True
    then have "xs = []" using c by (cases xs) auto
    moreover have "b = s" using assms True Cons.prems(2,3) by (fastforce simp: tree_inv_def)
    ultimately show ?thesis using x Cons.prems(2) by simp
  next
    case False
    then have p: "0 \<le> parent st b" "nat (parent st b) < V st" "used st (nat (parent st b))"
      using assms Cons.prems(2) by (auto simp: tree_inv_def)
    then have d: "distv st (nat (parent st b)) < INF_val" using assms by (simp add: tree_inv_def)
    have "is_chain (parent st) (int (nat (parent st b))) xs" using c p(1) by simp
    from Cons.IH [OF this p(2) d] show ?thesis using x Cons.prems(2) by auto
  qed
qed

section \<open>adb[1].h: the alternate differs from the best path\<close>

lemma INF_val_pos: "INF_val / 2 < INF_val" "0 < INF_val"
  by (simp_all add: INF_val_def)

lemma chain_path:
  assumes "tree_inv sk s st" "chain_from room (parent st) (int t) = Some tmp" "t < V st"
      "distv st t < INF_val / 2"
  shows "tmp \<noteq> []" "hd tmp = t" "last tmp = s" "\<forall>x \<in> set tmp. x < V st"
    "is_chain (parent st) (int t) tmp"
proof -
  have c: "is_chain (parent st) (int t) tmp" using chain_from_is_chain [OF assms(2)] .
  have d: "distv st t < INF_val" using assms(4) INF_val_pos(1) by linarith
  from tree_chain [OF assms(1) c assms(3) d]
  show "tmp \<noteq> []" "hd tmp = t" "last tmp = s" "\<forall>x \<in> set tmp. x < V st" by simp_all
  show "is_chain (parent st) (int t) tmp" using c .
qed

lemma spur_step_cases:
  assumes "spur_step fuel t prev i (st, cands) = Some (st', cands')"
  obtains (unreachable)
      "dijkstra_skip_edge fuel (prev ! i) t
         (st\<lparr>skip_u := int (prev ! i), skip_v := int (prev ! (i + 1))\<rparr>) = Some st'"
      "distv st' t \<ge> INF_val / 2" "cands' = cands"
  | (reached) tmp where
      "dijkstra_skip_edge fuel (prev ! i) t
         (st\<lparr>skip_u := int (prev ! i), skip_v := int (prev ! (i + 1))\<rparr>) = Some st'"
      "distv st' t < INF_val / 2"
      "chain_from MAXV (parent st') (int t) = Some tmp"
      "length (take (i + 1) prev @ tl (rev tmp)) \<le> MAXV"
      "cands' = cands \<or>
       cands' = cands @ [\<lparr>nodes = take (i + 1) prev @ tl (rev tmp),
                          cost = path_km st' (take (i + 1) prev) + path_km st' (rev tmp)\<rparr>]"
      "cands' = cands \<longleftrightarrow>
         list_ex (\<lambda>p. equal_paths p \<lparr>nodes = take (i + 1) prev @ tl (rev tmp),
                          cost = path_km st' (take (i + 1) prev) + path_km st' (rev tmp)\<rparr>) cands
         \<or> \<not> length cands < 64"
proof -
  let ?st1 = "st\<lparr>skip_u := int (prev ! i), skip_v := int (prev ! (i + 1))\<rparr>"
  from assms obtain st2 where d: "dijkstra_skip_edge fuel (prev ! i) t ?st1 = Some st2"
    by (auto simp: spur_step_def Let_def split: option.splits)
  have st': "st' = st2"
    using assms d by (auto simp: spur_step_def Let_def split: option.splits if_splits)
  show ?thesis
  proof (cases "distv st2 t \<ge> INF_val / 2")
    case True
    then have "cands' = cands" using assms d by (simp add: spur_step_def Let_def)
    then show ?thesis using unreachable d True st' by simp
  next
    case False
    then obtain tmp where c: "chain_from MAXV (parent st2) (int t) = Some tmp"
      using assms d by (auto simp: spur_step_def Let_def split: option.splits)
    let ?cand = "\<lparr>nodes = take (i + 1) prev @ tl (rev tmp),
                          cost = path_km st2 (take (i + 1) prev) + path_km st2 (rev tmp)\<rparr>"
    have l: "length (take (i + 1) prev @ tl (rev tmp)) \<le> MAXV"
      using assms d False c by (auto simp: spur_step_def Let_def split: if_splits)
    have r: "cands' = (if \<not> list_ex (\<lambda>p. equal_paths p ?cand) cands \<and> length cands < 64
                       then cands @ [?cand] else cands)"
      using assms d False c l by (auto simp: spur_step_def Let_def split: if_splits)
    show ?thesis
      using reached [of tmp] d False c l r st' by (auto split: if_splits)
  qed
qed

lemma spur_step_differs:
  assumes wf: "wf_graph st" and t: "t < V st" and i: "i + 1 < length prev" "prev ! i < V st"
      and step: "spur_step fuel t prev i (st, cands) = Some (st', cands')"
  shows "\<forall>c \<in> set cands'. c \<in> set cands \<or> nodes c \<noteq> prev"
  using step
proof (cases rule: spur_step_cases)
  case unreachable
  then show ?thesis by simp
next
  case (reached tmp)
  let ?st1 = "st\<lparr>skip_u := int (prev ! i), skip_v := int (prev ! (i + 1))\<rparr>"
  let ?cn = "take (i + 1) prev @ tl (rev tmp)"
  have sg1: "same_graph st ?st1" by (simp add: same_graph_def graph_of_def)
  have wf1: "wf_graph ?st1" using wf wf_graph_cong [OF sg1] by simp
  have v1: "prev ! i < V ?st1" using i(2) by simp
  have ti: "tree_inv True (prev ! i) st'"
    using search_tree(2) [OF wf1 v1 reached(1)] .
  have fr: "same_graph ?st1 st'" "same_skip ?st1 st'"
    using dijkstra_skip_edge_frame [OF reached(1)] by simp_all
  have v': "V st' = V st" using fr(1) by (simp add: same_graph_def graph_of_def)
  have sk: "skip_u st' = int (prev ! i)" "skip_v st' = int (prev ! (i + 1))"
    using fr(2) by (simp_all add: same_skip_def)
  have t': "t < V st'" using t v' by simp
  note cp = chain_path [OF ti reached(3) t' reached(2)]
  have "?cn \<noteq> prev"
  proof (cases "length tmp = 1")
    case True
    then have "tl (rev tmp) = []" by (cases tmp) auto
    then have "length ?cn = i + 1" using i(1) by simp
    moreover have "length prev \<noteq> i + 1" using i(1) by simp
    ultimately show ?thesis by metis
  next
    case False
    define m where "m = length tmp"
    have "length tmp \<noteq> 0" using cp(1) by simp
    then have m2: "2 \<le> m" using False unfolding m_def by linarith
    let ?x = "tmp ! (m - 2)"
    have xin: "?x \<in> set tmp" using m2 unfolding m_def by simp
    have xv: "?x < V st'" using cp(4) xin by blast
    have "parent st' ?x = int (tmp ! (m - 2 + 1))"
      using is_chain_links [OF cp(5), of "m - 2"] m2 unfolding m_def by simp
    moreover have "m - 2 + 1 = length tmp - 1" using m2 unfolding m_def by linarith
    then have "tmp ! (m - 2 + 1) = last tmp"
      using last_conv_nth [OF cp(1)] by simp
    ultimately have px: "parent st' ?x = int (prev ! i)" using cp(3) by simp
    have "\<not> is_skipped st' (nat (parent st' ?x)) ?x"
      using ti xv px unfolding tree_inv_def by fastforce
    then have ne: "?x \<noteq> prev ! (i + 1)"
      using px sk by (auto simp: is_skipped_def)
    have "rev tmp ! 1 = ?x"
      using m2 rev_nth [of 1 tmp] unfolding m_def by (simp add: numeral_2_eq_2)
    moreover have "tl (rev tmp) ! 0 = rev tmp ! 1"
      using m2 unfolding m_def by (cases "rev tmp") auto
    moreover have "?cn ! (i + 1) = tl (rev tmp) ! 0"
      using i(1) by (simp add: nth_append)
    ultimately have "?cn ! (i + 1) \<noteq> prev ! (i + 1)" using ne by simp
    then show ?thesis by auto
  qed
  then have n: "nodes \<lparr>nodes = ?cn,
      cost = path_km st' (take (i + 1) prev) + path_km st' (rev tmp)\<rparr> \<noteq> prev" by simp
  show ?thesis
  proof
    fix c assume "c \<in> set cands'"
    then consider "c \<in> set cands"
      | "c = \<lparr>nodes = ?cn, cost = path_km st' (take (i + 1) prev) + path_km st' (rev tmp)\<rparr>"
      using reached(5) by auto
    then show "c \<in> set cands \<or> nodes c \<noteq> prev"
    proof cases
      case 1
      then show ?thesis by simp
    next
      case 2
      then show ?thesis using n by (simp only:) simp
    qed
  qed
qed

lemma spur_loop_differs:
  assumes "spur_loop fuel t prev is (st, cands) = Some (st', cands')" "wf_graph st" "t < V st"
      "\<forall>i \<in> set is. i + 1 < length prev \<and> prev ! i < V st"
  shows "\<forall>c \<in> set cands'. c \<in> set cands \<or> nodes c \<noteq> prev"
  using assms
proof (induction "is" arbitrary: st cands)
  case Nil
  then show ?case by simp
next
  case (Cons i "is")
  from Cons.prems(1) obtain st1 cands1 where
    s: "spur_step fuel t prev i (st, cands) = Some (st1, cands1)" and
    l: "spur_loop fuel t prev is (st1, cands1) = Some (st', cands')"
    by (auto split: option.splits)
  have i: "i + 1 < length prev" "prev ! i < V st" using Cons.prems(4) by simp_all
  note d = spur_step_differs [OF Cons.prems(2,3) i s]
  have sg: "same_graph st st1" using spur_step_frame [OF s] .
  have v: "V st1 = V st" using sg by (simp add: same_graph_def graph_of_def)
  have wf1: "wf_graph st1" using Cons.prems(2) wf_graph_cong [OF sg] by simp
  have "\<forall>i \<in> set is. i + 1 < length prev \<and> prev ! i < V st1" using Cons.prems(4) v by simp
  from Cons.IH [OF l wf1 _ this] Cons.prems(3) v
  have "\<forall>c \<in> set cands'. c \<in> set cands1 \<or> nodes c \<noteq> prev" by simp
  then show ?case using d by blast
qed

lemma cheapest_fold_lt:
  "\<forall>i \<in> set js. i < m \<Longrightarrow> b < m \<Longrightarrow>
   fold (\<lambda>i besti. if cost (cands ! i) < cost (cands ! besti) then i else besti) js b < m"
  by (induction js arbitrary: b) auto

lemma cheapest_lt: "cands \<noteq> [] \<Longrightarrow> cheapest cands < length cands"
  unfolding cheapest_def by (rule cheapest_fold_lt) auto

lemma best_path_nodes:
  assumes "wf_graph st" "s < V st" "t < V st" "ecodijkstra fuel s t st = Some st1"
      "distv st1 t < INF_val / 2" "build_path t st1 = Some bp"
  shows "bp \<noteq> []" "hd bp = s" "last bp = t" "\<forall>x \<in> set bp. x < V st"
proof -
  have ti: "tree_inv False s st1" using search_tree(1) [OF assms(1,2,4)] .
  have v: "V st1 = V st"
    using ecodijkstra_frame [OF assms(4)] by (simp add: same_graph_def graph_of_def)
  obtain tmp where c: "chain_from MAXV (parent st1) (int t) = Some tmp" and bp: "bp = rev tmp"
    using assms(5,6) by (auto simp: build_path_def split: option.splits if_splits)
  have t: "t < V st1" using assms(3) v by simp
  note cp = chain_path [OF ti c t assms(5)]
  show "bp \<noteq> []" using cp(1) bp by simp
  show "hd bp = s" using cp(1,3) bp by (simp add: hd_rev)
  show "last bp = t" using cp(1,2) bp by (simp add: last_rev)
  show "\<forall>x \<in> set bp. x < V st" using cp(4) bp v by simp
qed

text \<open>
  C2.  On a well-formed graph, when \<^verbatim>\<open>yen_k2_paths\<close> returns two paths, their node sequences
  differ: a candidate either stops at the spur node, and is then shorter than the best path, or
  it leaves the spur node for a node other than the next node of the best path, because the
  search that found it skipped that edge.
\<close>

theorem two_paths_differ:
  assumes "wf_graph st" "s < V st" "t < V st"
      and "yen_k2_paths fuel s t st = Some (st', ps)" "length ps = 2"
  shows "nodes (ps ! 0) \<noteq> nodes (ps ! 1)"
  using assms(4)
proof (cases rule: yen_cases)
  case (unreachable st1)
  then show ?thesis using assms(5) by simp
next
  case (found st1 bp st2 cands)
  have ne: "cands \<noteq> []" using found(6) assms(5) by (auto split: if_splits)
  then have ps: "ps = [\<lparr>nodes = bp, cost = distv st1 t\<rparr>, cands ! cheapest cands]"
    using found(6) by simp
  note b = best_path_nodes [OF assms(1,2,3) found(1,2,3)]
  have sg: "same_graph st st1" using ecodijkstra_frame [OF found(1)] by simp
  have v: "V st1 = V st" using sg by (simp add: same_graph_def graph_of_def)
  have wf1: "wf_graph st1" using assms(1) wf_graph_cong [OF sg] by simp
  have "\<forall>i \<in> set [0..<length bp - 1]. i + 1 < length bp \<and> bp ! i < V st1"
    using b(4) v by auto
  from spur_loop_differs [OF found(4) wf1 _ this] assms(3) v
  have "\<forall>c \<in> set cands. nodes c \<noteq> bp" by simp
  moreover have "cands ! cheapest cands \<in> set cands" using cheapest_lt [OF ne] by simp
  ultimately have "nodes (cands ! cheapest cands) \<noteq> bp" by blast
  then show ?thesis unfolding ps by simp
qed

section \<open>adb[1].h: the searches find shortest paths\<close>

text \<open>
  The graph as the searches see it: \<open>arc sk st a b\<close> says that node \<open>a\<close> has a record for \<open>b\<close>
  which the relaxation loop does not skip.
\<close>

definition arc :: "bool \<Rightarrow> gstate \<Rightarrow> nat \<Rightarrow> nat \<Rightarrow> bool" where
  "arc sk st a b \<longleftrightarrow> a < V st \<and> b \<in> set (adj_to st a) \<and> \<not> (sk \<and> is_skipped st a b)"


text \<open>
  What the builder guarantees and the searches rely on: linked records, the distance of the two
  end points as the weight of every record, and no negative distance.
\<close>

definition good_graph :: "gstate \<Rightarrow> bool" where
  "good_graph st \<longleftrightarrow> wf_graph st \<and> weights_ok st \<and> (\<forall>a b. 0 \<le> hav st a b)"

definition relaxed :: "bool \<Rightarrow> gstate \<Rightarrow> nat \<Rightarrow> bool" where
  "relaxed sk st x \<longleftrightarrow> (\<forall>b. arc sk st x b \<longrightarrow> distv st b \<le> distv st x + hav st x b)"

text \<open>
  The labels of a search from \<open>s\<close>: the source has distance 0, no label is negative or above
  \<^verbatim>\<open>INF\<close>, a used node is never farther than an unused one, and the label of a node with a
  parent is the label of the parent plus the distance between the two.
\<close>

definition dist_core :: "bool \<Rightarrow> nat \<Rightarrow> gstate \<Rightarrow> bool" where
  "dist_core sk s st \<longleftrightarrow>
     distv st s = 0 \<and>
     (\<forall>b < V st. 0 \<le> distv st b \<and> distv st b \<le> INF_val) \<and>
     (\<forall>x < V st. \<forall>y < V st. used st x \<and> \<not> used st y \<longrightarrow> distv st x \<le> distv st y) \<and>
     (\<forall>b < V st. parent st b \<noteq> - 1 \<longrightarrow>
        arc sk st (nat (parent st b)) b \<and>
        distv st b = distv st (nat (parent st b)) + hav st (nat (parent st b)) b)"


text \<open>Inside the relaxation loop of the node \<open>u\<close>, which is the farthest used node.\<close>

definition relax_inv :: "bool \<Rightarrow> nat \<Rightarrow> nat \<Rightarrow> nat \<Rightarrow> gstate \<Rightarrow> bool" where
  "relax_inv sk s t u st \<longleftrightarrow>
     dist_core sk s st \<and> tree_inv sk s st \<and> u < V st \<and> used st u \<and>
     (\<forall>x < V st. used st x \<longrightarrow> distv st x \<le> distv st u) \<and>
     (\<forall>x < V st. used st x \<and> x \<noteq> t \<and> x \<noteq> u \<longrightarrow> relaxed sk st x)"

lemma adj_to_cong: "same_graph st st' \<Longrightarrow> adj_to st' u = adj_to st u"
  by (simp add: adj_to_def adj_cong) (simp add: same_graph_def graph_of_def)

lemma arc_cong:
  "same_graph st st' \<Longrightarrow> same_skip st st' \<Longrightarrow> arc sk st' a b = arc sk st a b"
  by (simp add: arc_def adj_to_cong is_skipped_def same_skip_def)
     (simp add: same_graph_def graph_of_def)





subsection \<open>One relaxation\<close>

lemma relax_step:
  assumes inv: "relax_inv sk s t u st" and g: "good_graph st" and e: "e \<in> set (adj st u)"
  shows "relax_inv sk s t u (relax sk u e st)"
    and "\<forall>c. distv (relax sk u e st) c \<le> distv st c"
    and "\<forall>x < V st. used st x \<longrightarrow> distv (relax sk u e st) x = distv st x"
    and "arc sk st u (to st e) \<longrightarrow>
           distv (relax sk u e st) (to st e) \<le> distv (relax sk u e st) u + hav st u (to st e)"
proof -
  let ?b = "to st e"
  let ?alt = "distv st u + w st e"
  have wf: "wf_graph st" and wo: "weights_ok st" and nn: "\<And>a b. 0 \<le> hav st a b"
    using g by (simp_all add: good_graph_def)
  have core: "dist_core sk s st" and ti: "tree_inv sk s st" and u: "u < V st" "used st u"
    and top: "\<forall>x < V st. used st x \<longrightarrow> distv st x \<le> distv st u"
    and rel: "\<forall>x < V st. used st x \<and> x \<noteq> t \<and> x \<noteq> u \<longrightarrow> relaxed sk st x"
    using inv by (simp_all add: relax_inv_def)
  have c1: "distv st s = 0"
    and c2: "\<forall>b < V st. 0 \<le> distv st b \<and> distv st b \<le> INF_val"
    and c3: "\<forall>x < V st. \<forall>y < V st. used st x \<and> \<not> used st y \<longrightarrow> distv st x \<le> distv st y"
    and c4: "\<forall>b < V st. parent st b \<noteq> - 1 \<longrightarrow>
        arc sk st (nat (parent st b)) b \<and>
        distv st b = distv st (nat (parent st b)) + hav st (nat (parent st b)) b"
    using core by (simp_all add: dist_core_def)
  have bv: "?b < V st" using adj_chain(2) [OF wf u(1), of "E st"] e by simp
  have we: "w st e = hav st u ?b" using wo u(1) e by (simp add: weights_ok_def)
  have alt0: "distv st u \<le> ?alt" using nn [of u ?b] we by simp
  show "relax_inv sk s t u (relax sk u e st)"
    and "\<forall>c. distv (relax sk u e st) c \<le> distv st c"
    and "\<forall>x < V st. used st x \<longrightarrow> distv (relax sk u e st) x = distv st x"
    and "arc sk st u (to st e) \<longrightarrow>
           distv (relax sk u e st) (to st e) \<le> distv (relax sk u e st) u + hav st u (to st e)"
  proof -
    consider (skip) "sk \<and> is_skipped st u ?b"
      | (keep) "\<not> (sk \<and> is_skipped st u ?b)" "\<not> ?alt < distv st ?b"
      | (upd) "\<not> (sk \<and> is_skipped st u ?b)" "?alt < distv st ?b"
      by blast
    then have "relax_inv sk s t u (relax sk u e st) \<and>
       (\<forall>c. distv (relax sk u e st) c \<le> distv st c) \<and>
       (\<forall>x < V st. used st x \<longrightarrow> distv (relax sk u e st) x = distv st x) \<and>
       (arc sk st u ?b \<longrightarrow>
           distv (relax sk u e st) ?b \<le> distv (relax sk u e st) u + hav st u ?b)"
    proof cases
      case skip
      then have r: "relax sk u e st = st" by (simp add: relax_def)
      have "\<not> arc sk st u ?b" using skip by (simp add: arc_def)
      then show ?thesis unfolding r using inv by simp
    next
      case keep
      then have r: "relax sk u e st = st" by (auto simp: relax_def Let_def)
      have "distv st ?b \<le> distv st u + hav st u ?b" using keep(2) we by simp
      then show ?thesis unfolding r using inv by simp
    next
      case upd
      let ?st = "st\<lparr>distv := (distv st)(?b := ?alt), parent := (parent st)(?b := int u)\<rparr>"
      have r: "relax sk u e st = ?st" using upd by (auto simp: relax_def Let_def)
      have sg: "same_graph st ?st" "same_skip st ?st"
        by (simp_all add: same_graph_def same_skip_def graph_of_def)
      have ar: "arc sk ?st a b = arc sk st a b" for a b using arc_cong [OF sg] .
      have nub: "\<not> used st ?b"
      proof
        assume "used st ?b"
        then have "distv st ?b \<le> distv st u" using top bv by simp
        then show False using upd(2) alt0 by linarith
      qed
      have bu: "?b \<noteq> u" using nub u(2) by auto
      have bs: "?b \<noteq> s"
      proof
        assume "?b = s"
        then have "?alt < 0" using upd(2) c1 by simp
        moreover have "0 \<le> distv st u" using c2 u(1) by simp
        ultimately show False using alt0 by linarith
      qed
      have same: "distv ?st x = distv st x" if "used st x" for x
        using that nub by auto
      have mono: "distv ?st c \<le> distv st c" for c
        using upd(2) by simp
      have ti': "tree_inv sk s ?st"
        using tree_inv_relax [OF ti u bv] unfolding r .
      have core': "dist_core sk s ?st"
        unfolding dist_core_def
      proof (intro conjI allI impI)
        show "distv ?st s = 0" using c1 bs by simp
      next
        fix b assume "b < V ?st"
        then have b: "b < V st" by simp
        show "0 \<le> distv ?st b"
        proof (cases "b = ?b")
          case True
          have "0 \<le> distv st u" using c2 u(1) by simp
          then show ?thesis using True alt0 by simp
        next
          case False
          then show ?thesis using c2 b by simp
        qed
        show "distv ?st b \<le> INF_val"
          using mono [of b] c2 b by (meson order_trans)
      next
        fix x y assume "x < V ?st" "y < V ?st" "used ?st x \<and> \<not> used ?st y"
        then have xy: "x < V st" "y < V st" "used st x" "\<not> used st y" by simp_all
        have dx: "distv ?st x = distv st x" using same [OF xy(3)] .
        show "distv ?st x \<le> distv ?st y"
        proof (cases "y = ?b")
          case True
          have "distv st x \<le> distv st u" using top xy by simp
          then show ?thesis using True dx alt0 by simp
        next
          case False
          then show ?thesis using c3 xy dx by simp
        qed
      next
        fix b assume b: "b < V ?st" "parent ?st b \<noteq> - 1"
        then have bv': "b < V st" by simp
        show "arc sk ?st (nat (parent ?st b)) b"
        proof (cases "b = ?b")
          case True
          have "?b \<in> set (adj_to st u)" using e by (simp add: adj_to_def)
          then have "arc sk st u ?b" using u(1) upd(1) by (simp add: arc_def)
          then show ?thesis unfolding ar using True by simp
        next
          case False
          then show ?thesis unfolding ar using c4 bv' b(2) by simp
        qed
        show "distv ?st b = distv ?st (nat (parent ?st b)) + hav ?st (nat (parent ?st b)) b"
        proof (cases "b = ?b")
          case True
          then show ?thesis using bu we by simp
        next
          case False
          then have p: "parent st b \<noteq> - 1" using b(2) by simp
          have pu: "used st (nat (parent st b))"
            using ti bv' p by (simp add: tree_inv_def)
          have "nat (parent st b) \<noteq> ?b" using pu nub by auto
          then show ?thesis using False c4 bv' p by simp
        qed
      qed
      have rel': "relaxed sk ?st x" if x: "x < V st" "used st x" "x \<noteq> t" "x \<noteq> u" for x
      proof -
        have rx: "relaxed sk st x" using rel x by simp
        show ?thesis
          unfolding relaxed_def ar
        proof (intro allI impI)
          fix b assume "arc sk st x b"
          then have "distv st b \<le> distv st x + hav st x b" using rx by (simp add: relaxed_def)
          moreover have "distv ?st b \<le> distv st b" using mono .
          moreover have "distv ?st x = distv st x" using same [OF x(2)] .
          ultimately show "distv ?st b \<le> distv ?st x + hav ?st x b" by simp
        qed
      qed
      have inv': "relax_inv sk s t u ?st"
        unfolding relax_inv_def
        using core' ti' u top rel' same by (auto simp del: fun_upd_apply)
      have last: "distv ?st ?b \<le> distv ?st u + hav st u ?b" using bu we by simp
      show ?thesis unfolding r using inv' mono same last by (auto simp del: fun_upd_apply)
    qed
    then show "relax_inv sk s t u (relax sk u e st)"
      and "\<forall>c. distv (relax sk u e st) c \<le> distv st c"
      and "\<forall>x < V st. used st x \<longrightarrow> distv (relax sk u e st) x = distv st x"
      and "arc sk st u (to st e) \<longrightarrow>
           distv (relax sk u e st) (to st e) \<le> distv (relax sk u e st) u + hav st u (to st e)"
      by blast+
  qed
qed

subsection \<open>The relaxation loop and the main loop\<close>







subsection \<open>Lengths of node sequences\<close>









subsection \<open>Walks\<close>




subsection \<open>The chain of parent pointers\<close>





subsection \<open>No walk is shorter than the label of the target\<close>



section \<open>adb[1].h: the returned paths have no loop\<close>



subsection \<open>The choice among the candidates\<close>



subsection \<open>A candidate with a loop\<close>


subsection \<open>The list of candidates\<close>










subsection \<open>One round of the spur loop\<close>



subsection \<open>The spur loop and the result\<close>





section \<open>adb[1].h: worked examples\<close>

text \<open>The graph that \<^verbatim>\<open>build_knn_fixed(k)\<close> builds over \<open>m\<close> places on a line.\<close>

definition knn_line :: "int \<Rightarrow> nat \<Rightarrow> gstate" where
  "knn_line k m = (case build_knn_fixed k (line_places m) of Inl e \<Rightarrow> line_places m | Inr st \<Rightarrow> st)"

lemma knn_line_built:
  "\<not> isl (build_knn_fixed k (line_places m)) \<Longrightarrow> build_knn_fixed k (line_places m) = Inr (knn_line k m)"
  by (cases "build_knn_fixed k (line_places m)") (simp_all add: knn_line_def)

lemma knn_line_1_2: "build_knn_fixed 1 (line_places 2) = Inr (knn_line 1 2)"
  by (rule knn_line_built) code_simp

lemma knn_line_2_4: "build_knn_fixed 2 (line_places 4) = Inr (knn_line 2 4)"
  by (rule knn_line_built) code_simp

lemma knn_line_2_4_wf: "wf_graph (knn_line 2 4)" "V (knn_line 2 4) = 4"
  using build_knn_fixed_invs(1,2) [OF knn_line_2_4] by (simp_all add: line_places_def)

lemma yen_line_2_4:
  "map_option snd (yen_k2_paths 20 0 3 (knn_line 2 4)) =
     Some [\<lparr>nodes = [0, 1, 3], cost = 3\<rparr>, \<lparr>nodes = [0, 2, 3], cost = 3\<rparr>]"
  by code_simp

lemma skip_line_2_4: "map_option (\<lambda>st. distv st 3) (dijkstra_skip_edge 20 0 3 (knn_line 2 4)) = Some 3"
  by code_simp

theorem knn_adjacency_witness:
  "build_knn_fixed 1 (line_places 2) = Inr (knn_line 1 2) \<and> V (knn_line 1 2) = 2 \<and>
   0 \<notin> set (adj_to (knn_line 1 2) 0) \<and> count_list (adj_to (knn_line 1 2) 0) 1 \<le> 2 \<and>
   1 \<notin> set (adj_to (knn_line 1 2) 1) \<and> count_list (adj_to (knn_line 1 2) 1) 0 \<le> 2"
proof -
  have v: "V (knn_line 1 2) = 2"
    using build_knn_fixed_invs(2) [OF knn_line_1_2] by (simp add: line_places_def)
  note t = knn_adjacency [OF knn_line_1_2]
  have "0 \<notin> set (adj_to (knn_line 1 2) 0) \<and> count_list (adj_to (knn_line 1 2) 0) 1 \<le> 2"
    using t v by simp
  moreover have "1 \<notin> set (adj_to (knn_line 1 2) 1) \<and> count_list (adj_to (knn_line 1 2) 1) 0 \<le> 2"
    using t v by simp
  ultimately show ?thesis using knn_line_1_2 v by blast
qed

theorem knn_duplicate_records_counterexample:
  "adj_to (knn_line 1 2) 0 = [1, 1] \<and> count_list (adj_to (knn_line 1 2) 0) 1 = 2 \<and>
   adj_to (knn_line 1 2) 1 = [0, 0] \<and> E (knn_line 1 2) = 4"
  by code_simp

theorem two_paths_differ_witness:
  "wf_graph (knn_line 2 4) \<and> 0 < V (knn_line 2 4) \<and> 3 < V (knn_line 2 4) \<and>
   (\<exists>st'. yen_k2_paths 20 0 3 (knn_line 2 4) =
      Some (st', [\<lparr>nodes = [0, 1, 3], cost = 3\<rparr>, \<lparr>nodes = [0, 2, 3], cost = 3\<rparr>])) \<and>
   [0, 1, 3] \<noteq> [0, 2, 3 :: nat]"
proof -
  let ?ps = "[\<lparr>nodes = [0, 1, 3], cost = 3\<rparr>, \<lparr>nodes = [0, 2, 3], cost = 3 :: real\<rparr>]"
  from yen_line_2_4 obtain st' where y: "yen_k2_paths 20 0 3 (knn_line 2 4) = Some (st', ?ps)"
    by (cases "yen_k2_paths 20 0 3 (knn_line 2 4)") auto
  have v: "0 < V (knn_line 2 4)" "3 < V (knn_line 2 4)" using knn_line_2_4_wf(2) by simp_all
  have "nodes (?ps ! 0) \<noteq> nodes (?ps ! 1)"
    by (rule two_paths_differ [OF knn_line_2_4_wf(1) v y]) simp
  then have "[0, 1, 3] \<noteq> [0, 2, 3 :: nat]" by simp
  then show ?thesis using knn_line_2_4_wf(1) v y by blast
qed

theorem exclusion_keeps_graph_witness:
  "(\<exists>st'. dijkstra_skip_edge 20 0 3 (knn_line 2 4) = Some st' \<and>
      graph_of st' = graph_of (knn_line 2 4)) \<and>
   (\<exists>st'' ps. yen_k2_paths 20 0 3 (knn_line 2 4) = Some (st'', ps) \<and> ps \<noteq> [] \<and>
      graph_of st'' = graph_of (knn_line 2 4) \<and> skip_u st'' = - 1 \<and> skip_v st'' = - 1)"
proof -
  let ?ps = "[\<lparr>nodes = [0, 1, 3], cost = 3\<rparr>, \<lparr>nodes = [0, 2, 3], cost = 3 :: real\<rparr>]"
  from yen_line_2_4 obtain st'' where y: "yen_k2_paths 20 0 3 (knn_line 2 4) = Some (st'', ?ps)"
    by (cases "yen_k2_paths 20 0 3 (knn_line 2 4)") auto
  from skip_line_2_4 obtain st' where d: "dijkstra_skip_edge 20 0 3 (knn_line 2 4) = Some st'"
    by (cases "dijkstra_skip_edge 20 0 3 (knn_line 2 4)") auto
  note t = exclusion_keeps_graph [of 20 0 3 "knn_line 2 4" st' st'' ?ps]
  have a: "graph_of st' = graph_of (knn_line 2 4)" using t d by blast
  have b: "graph_of st'' = graph_of (knn_line 2 4) \<and> skip_u st'' = - 1 \<and> skip_v st'' = - 1"
    using t y by simp
  show ?thesis using a b d y by blast
qed

text \<open>
  Places on a line at the given positions, and the graph that \<^verbatim>\<open>build_knn_fixed(k)\<close> builds over
  them.  Two places may lie at the same position.
\<close>

definition places_at :: "int list \<Rightarrow> gstate" where
  "places_at xs =
     \<lparr>V = length xs, hav = (\<lambda>i j. \<bar>real_of_int (xs ! i) - real_of_int (xs ! j)\<bar>),
      head = (\<lambda>i. - 1), to = (\<lambda>e. 0), nxt = (\<lambda>e. - 1),
      w = (\<lambda>e. 0), E = 0, parent = (\<lambda>i. - 1), distv = (\<lambda>i. 0), used = (\<lambda>i. False),
      skip_u = - 1, skip_v = - 1\<rparr>"

definition knn_at :: "int \<Rightarrow> int list \<Rightarrow> gstate" where
  "knn_at k xs = (case build_knn_fixed k (places_at xs) of Inl e \<Rightarrow> places_at xs | Inr st \<Rightarrow> st)"





text \<open>
  The second candidate of this run goes through place 1 twice.  It costs as much as the first
  one, which is chosen because it stands first.
\<close>

lemma looping_candidate:
  "(case ecodijkstra 30 1 0 (knn_at 2 [1, 0, 1, 0, 1]) of
      None \<Rightarrow> None
    | Some st1 \<Rightarrow> map_option snd (spur_loop 30 0 [1, 3, 0] [0..<2] (st1, []))) =
   Some [\<lparr>nodes = [1, 2, 0], cost = 1\<rparr>, \<lparr>nodes = [1, 3, 1, 2, 0], cost = 1\<rparr>]"
  by code_simp


section \<open>A route from a place to itself\<close>

text \<open>
  C3 asks for a failure in both programs.  The distance mode has the test: \<^verbatim>\<open>ecopath\<close> stops with
  \<^verbatim>\<open>die("Source and destination must differ.")\<close> before any search.  The CO2 mode has no such
  test: for a city \<open>src\<close> of the graph, \<^verbatim>\<open>shortp\<close> with source and target \<open>src\<close> gets the path
  \<open>[src]\<close> with cost 0 from \<^verbatim>\<open>dijkstra\<close> and goes on to report it, with all three times 0.
\<close>

theorem same_endpoints:
  "ecopath_route fuel s s st = Some (Inl (Die ''Source and destination must differ.'')) \<and>
   (src < n g \<longrightarrow> shortp_route g src src = Inr ([src], 0, 0, 0, 0))"
proof (rule conjI)
  show "ecopath_route fuel s s st = Some (Inl (Die ''Source and destination must differ.''))"
    by (simp add: ecopath_route_def)
  show "src < n g \<longrightarrow> shortp_route g src src = Inr ([src], 0, 0, 0, 0)"
  proof (rule impI)
    assume "src < n g"
    then have "dijkstra g src src = Some ([src], 0)" by (rule dijkstra_same)
    then show "shortp_route g src src = Inr ([src], 0, 0, 0, 0)"
      by (simp add: shortp_route_def mode_times_def steps_def)
  qed
qed

theorem same_endpoints_witness:
  "(0 :: nat) < n (two_city_graph 10 1) \<and>
   shortp_route (two_city_graph 10 1) 0 0 = Inr ([0], 0, 0, 0, 0) \<and>
   ecopath_route 20 0 0 (knn_line 2 4) = Some (Inl (Die ''Source and destination must differ.''))"
proof -
  have h: "(0 :: nat) < n (two_city_graph 10 1)" by (simp add: two_city_graph_def)
  note t = same_endpoints [of 20 0 "knn_line 2 4" 0 "two_city_graph 10 1"]
  show ?thesis using t h by simp
qed

end
